theory Spec2Isabelle
  imports Complex_Main "HOL-Library.AList"
begin

section \<open>Python values as the provisioning tool sees them\<close>

text \<open>
  The tool (\<^verbatim>\<open>provisioning-tool/automagic.py\<close>) keeps its registry, its device queue and
  its router table as the values \<^verbatim>\<open>json.load\<close> returns: nested dicts, lists, strings,
  numbers, booleans and \<^verbatim>\<open>None\<close>. A dict keeps its insertion order and has every key
  once, so it is an association list; \<open>map_of\<close> reads it, \<open>AList.update\<close> writes it
  (in place for a key that is present, at the end for a new one, as Python does).
  A float is carried as the real number it denotes; no function below computes with it.
\<close>

datatype json =
    JNull
  | JBool bool
  | JInt int
  | JFloat real
  | JStr string
  | JArr "json list"
  | JObj "(string \<times> json) list"

type_synonym 'v dict = "(string \<times> 'v) list"

text \<open>Every key once, in every dict of a value: what \<^verbatim>\<open>json.load\<close> produces.\<close>

fun wf_json :: "json \<Rightarrow> bool"
  and wf_fields :: "(string \<times> json) list \<Rightarrow> bool"
  and wf_elems :: "json list \<Rightarrow> bool" where
  "wf_json (JObj kvs) = (distinct (map fst kvs) \<and> wf_fields kvs)"
| "wf_json (JArr xs) = wf_elems xs"
| "wf_json _ = True"
| "wf_fields [] = True"
| "wf_fields (kv # kvs) = (wf_json (snd kv) \<and> wf_fields kvs)"
| "wf_elems [] = True"
| "wf_elems (x # xs) = (wf_json x \<and> wf_elems xs)"

datatype error =
    KeyError string
  | TypeError
  | IndexError
  | ValueError
  | AttributeError
  | NameError
  | Exception string
  | SystemExit string

datatype pytype = TNone | TBool | TInt | TFloat | TStr | TList | TDict

fun py_type :: "json \<Rightarrow> pytype" where
  "py_type JNull = TNone"
| "py_type (JBool _) = TBool"
| "py_type (JInt _) = TInt"
| "py_type (JFloat _) = TFloat"
| "py_type (JStr _) = TStr"
| "py_type (JArr _) = TList"
| "py_type (JObj _) = TDict"

text \<open>\<^verbatim>\<open>s.startswith(p)\<close>, \<^verbatim>\<open>s.endswith(p)\<close> and \<^verbatim>\<open>sub in s\<close> on strings.\<close>

fun startswith :: "string \<Rightarrow> string \<Rightarrow> bool" where
  "startswith s [] = True"
| "startswith [] (p # ps) = False"
| "startswith (c # s) (p # ps) = (c = p \<and> startswith s ps)"

definition endswith :: "string \<Rightarrow> string \<Rightarrow> bool" where
  "endswith s p = startswith (rev s) (rev p)"

fun str_contains :: "string \<Rightarrow> string \<Rightarrow> bool" where
  "str_contains [] sub = (sub = [])"
| "str_contains (c # s) sub = (startswith (c # s) sub \<or> str_contains s sub)"

text \<open>
  \<^verbatim>\<open>k in x\<close> for a string \<open>k\<close>: key membership in a dict, substring test in a string,
  element test in a list, \<^verbatim>\<open>TypeError\<close> on anything else.
\<close>

fun py_in :: "string \<Rightarrow> json \<Rightarrow> error + bool" where
  "py_in k (JObj d) = Inr (map_of d k \<noteq> None)"
| "py_in k (JStr s) = Inr (str_contains s k)"
| "py_in k (JArr xs) = Inr (JStr k \<in> set xs)"
| "py_in k _ = Inl TypeError"

text \<open>\<^verbatim>\<open>x[k]\<close> for a string \<open>k\<close>: only a dict can be subscripted by a string.\<close>

fun py_getitem :: "json \<Rightarrow> string \<Rightarrow> error + json" where
  "py_getitem (JObj d) k = (case map_of d k of None \<Rightarrow> Inl (KeyError k) | Some v \<Rightarrow> Inr v)"
| "py_getitem _ k = Inl TypeError"

text \<open>\<^verbatim>\<open>x[k] = v\<close> for a string \<open>k\<close>.\<close>

fun py_setitem :: "json \<Rightarrow> string \<Rightarrow> json \<Rightarrow> error + json" where
  "py_setitem (JObj d) k v = Inr (JObj (AList.update k v d))"
| "py_setitem _ k v = Inl TypeError"

section \<open>Reading a JSON file: \<^verbatim>\<open>read_json_file\<close>\<close>

text \<open>
  What \<^verbatim>\<open>open\<close> and \<^verbatim>\<open>json.load\<close> give for a file name: the file cannot be opened
  (\<^verbatim>\<open>IOError\<close>, with its text), its content is not JSON, or the value loaded.
\<close>

datatype file_read = IOError string | JSONDecodeError | Loaded json

text \<open>The \<^verbatim>\<open>validate\<close> argument: \<^verbatim>\<open>False\<close>, \<^verbatim>\<open>True\<close>, or a list of field names.\<close>

datatype validate_arg = VBool bool | VList "string list"

fun validate_truthy :: "validate_arg \<Rightarrow> bool" where
  "validate_truthy (VBool b) = b"
| "validate_truthy (VList vs) = (vs \<noteq> [])"

text \<open>
  The list branch of the validation: \<^verbatim>\<open>valid = False\<close>, then \<^verbatim>\<open>True\<close> again when
  the first entry's \<^verbatim>\<open>ConfigInput\<close> has one of the names of \<^verbatim>\<open>validate\<close>.
\<close>

fun any_in :: "string list \<Rightarrow> json \<Rightarrow> error + bool" where
  "any_in [] x = Inr False"
| "any_in (v # vs) x =
     (case py_in v x of
        Inl e \<Rightarrow> Inl e
      | Inr b \<Rightarrow> (case any_in vs x of Inl e \<Rightarrow> Inl e | Inr b' \<Rightarrow> Inr (b \<or> b')))"

definition validate_list :: "json list \<Rightarrow> validate_arg \<Rightarrow> error + bool" where
  "validate_list result validate =
     (case result of
        [] \<Rightarrow> Inr True
      | r0 # _ \<Rightarrow>
          (case py_in ''ConfigInput'' r0 of
             Inl e \<Rightarrow> Inl e
           | Inr False \<Rightarrow> Inr False
           | Inr True \<Rightarrow>
               (case validate of
                  VBool _ \<Rightarrow> Inl TypeError
                | VList vs \<Rightarrow>
                    (case py_getitem r0 ''ConfigInput'' of
                       Inl e \<Rightarrow> Inl e
                     | Inr ci \<Rightarrow> any_in vs ci))))"

definition validate_result :: "json \<Rightarrow> json \<Rightarrow> validate_arg \<Rightarrow> error + bool" where
  "validate_result empty_value result validate =
     (if py_type empty_value \<noteq> py_type result then Inr False
      else case result of
        JObj d \<Rightarrow> Inr (\<not> (map_of d ''Format'' = None \<or> map_of d ''Format'' \<noteq> Some (JStr ''automagic'')))
      | JArr xs \<Rightarrow> validate_list xs validate
      | _ \<Rightarrow> Inr True)"

definition corrupt_msg :: "string \<Rightarrow> string" where
  "corrupt_msg f = ''File '' @ f @ '' was not written by this program, or is corrupt.''"

definition read_json_file ::
  "(string \<Rightarrow> file_read) \<Rightarrow> string \<Rightarrow> json \<Rightarrow> validate_arg \<Rightarrow> error + json" where
  "read_json_file fs f empty_value validate =
     (case fs f of
        IOError e \<Rightarrow> if empty_value = JStr ''fail'' then Inl (SystemExit e) else Inr empty_value
      | JSONDecodeError \<Rightarrow> Inl ValueError
      | Loaded result \<Rightarrow>
          (case (if validate_truthy validate then validate_result empty_value result validate
                 else Inr True) of
             Inl e \<Rightarrow> Inl e
           | Inr valid \<Rightarrow>
               if \<not> valid then Inl (SystemExit (corrupt_msg f)) else Inr result))"

section \<open>Properties of \<^verbatim>\<open>read_json_file\<close>\<close>

text \<open>
  The registry and the router table are read with \<^verbatim>\<open>read_json_file(name, {}, True)\<close>
  (in \<^verbatim>\<open>main\<close>): the second argument is \<open>JObj []\<close>, the third \<open>VBool True\<close>.
\<close>

lemma read_json_file_object:
  "fs f = Loaded (JObj d) \<Longrightarrow>
     read_json_file fs f (JObj []) (VBool True) =
       (if map_of d ''Format'' = Some (JStr ''automagic'') then Inr (JObj d)
        else Inl (SystemExit (corrupt_msg f)))"
  by (auto simp: read_json_file_def validate_result_def)

text \<open>
  C6. A registry or router-definitions file that exists and holds a JSON object is
  returned unchanged when its top-level \<^verbatim>\<open>Format\<close> is \<^verbatim>\<open>"automagic"\<close>; when the key
  is missing or has another value the read ends in \<^verbatim>\<open>sys.exit()\<close> after the corruption
  message, so nothing is loaded and nothing is written afterwards.
\<close>

theorem registry_format_sentinel:
  assumes "fs f = Loaded (JObj d)"
  shows "(map_of d ''Format'' = Some (JStr ''automagic'') \<longrightarrow>
            read_json_file fs f (JObj []) (VBool True) = Inr (JObj d))
       \<and> (map_of d ''Format'' \<noteq> Some (JStr ''automagic'') \<longrightarrow>
            read_json_file fs f (JObj []) (VBool True) = Inl (SystemExit (corrupt_msg f)))"
  using assms read_json_file_object [of fs f d] by simp

theorem registry_format_sentinel_witness:
  "read_json_file (\<lambda>_. Loaded (JObj [(''Format'', JStr ''automagic''), (''A1'', JObj [])]))
      ''db.json'' (JObj []) (VBool True)
     = Inr (JObj [(''Format'', JStr ''automagic''), (''A1'', JObj [])])
   \<and> read_json_file (\<lambda>_. Loaded (JObj [(''A1'', JObj [])])) ''db.json'' (JObj []) (VBool True)
     = Inl (SystemExit (corrupt_msg ''db.json''))"
  using registry_format_sentinel [of "\<lambda>_. Loaded (JObj [(''Format'', JStr ''automagic''), (''A1'', JObj [])])"
          "''db.json''" "[(''Format'', JStr ''automagic''), (''A1'', JObj [])]"]
        registry_format_sentinel [of "\<lambda>_. Loaded (JObj [(''A1'', JObj [])])"
          "''db.json''" "[(''A1'', JObj [])]"]
  by simp

section \<open>Selecting registry records: \<^verbatim>\<open>match_rec\<close>\<close>

text \<open>\<^verbatim>\<open>s.split(c)\<close> for a one-character separator, and \<^verbatim>\<open>sep.join(xs)\<close>.\<close>

fun split_on :: "char \<Rightarrow> string \<Rightarrow> string list" where
  "split_on c [] = [[]]"
| "split_on c (x # xs) =
     (if x = c then [] # split_on c xs
      else (x # hd (split_on c xs)) # tl (split_on c xs))"

fun join :: "string \<Rightarrow> string list \<Rightarrow> string" where
  "join sep [] = []"
| "join sep [x] = x"
| "join sep (x # y # ys) = x @ sep @ join sep (y # ys)"

text \<open>
  An optional command-line string (\<^verbatim>\<open>args.match_tag\<close>, \<^verbatim>\<open>args.group\<close>, ...) is
  \<^verbatim>\<open>None\<close> when the option is absent; \<^verbatim>\<open>if x\<close> holds for a non-empty string only.
\<close>

fun truthy :: "string option \<Rightarrow> bool" where
  "truthy None = False"
| "truthy (Some s) = (s \<noteq> [])"

text \<open>
  The loop over \<^verbatim>\<open>query_conditions\<close>: each \<open>q\<close> is the list \<^verbatim>\<open>x.split('=')\<close>;
  \<^verbatim>\<open>q[0]\<close> and \<^verbatim>\<open>q[1]\<close> raise \<^verbatim>\<open>IndexError\<close> on a list that is too short.
  The result \<open>Inr False\<close> is the early \<^verbatim>\<open>return False\<close>.
\<close>

fun conds_hold :: "json dict \<Rightarrow> string list list \<Rightarrow> error + bool" where
  "conds_hold rec [] = Inr True"
| "conds_hold rec ([] # qs) = Inl IndexError"
| "conds_hold rec ((q0 # r) # qs) =
     (case map_of rec q0 of
        None \<Rightarrow> Inr False
      | Some v \<Rightarrow>
          (case r of
             [] \<Rightarrow> Inl IndexError
           | q1 # _ \<Rightarrow> if v \<noteq> JStr q1 then Inr False else conds_hold rec qs))"

text \<open>
  \<^verbatim>\<open>match_tag and ('Tags' not in rec or match_tag not in rec['Tags'].split(','))\<close>;
  only a string has \<^verbatim>\<open>split\<close>. The value is whether the check lets the record pass.
\<close>

definition tag_passes :: "json dict \<Rightarrow> string option \<Rightarrow> error + bool" where
  "tag_passes rec match_tag =
     (if \<not> truthy match_tag then Inr True
      else case map_of rec ''Tags'' of
        None \<Rightarrow> Inr False
      | Some (JStr s) \<Rightarrow> Inr (the match_tag \<in> set (split_on CHR '','' s))
      | Some _ \<Rightarrow> Inl AttributeError)"

definition group_passes :: "json dict \<Rightarrow> string option \<Rightarrow> bool" where
  "group_passes rec group_filter =
     (\<not> (truthy group_filter \<and> (map_of rec ''Group'' = None \<or> map_of rec ''Group'' \<noteq> Some (JStr (the group_filter)))))"

definition restore_passes :: "json dict \<Rightarrow> string option \<Rightarrow> error + bool" where
  "restore_passes rec restore_device =
     (if truthy restore_device \<and> restore_device \<noteq> Some ''ALL'' then
        (case map_of rec ''ID'' of
           None \<Rightarrow> Inl (KeyError ''ID'')
         | Some v \<Rightarrow> Inr (\<not> (JStr (the restore_device) \<noteq> v)))
      else Inr True)"

definition access_passes :: "json dict \<Rightarrow> string \<Rightarrow> bool" where
  "access_passes rec access =
     (if access \<noteq> ''ALL'' then
        (let presumed = (case map_of rec ''Access'' of None \<Rightarrow> JStr ''Continuous'' | Some v \<Rightarrow> v)
         in \<not> (presumed \<noteq> JStr access))
      else True)"

text \<open>One check after the other; the first that fails returns \<^verbatim>\<open>False\<close>, or raises.\<close>

definition match_rec ::
  "json dict \<Rightarrow> string list list \<Rightarrow> string option \<Rightarrow> string option \<Rightarrow> string option \<Rightarrow> string
     \<Rightarrow> error + bool" where
  "match_rec rec query_conditions match_tag group_filter restore_device access =
     (case conds_hold rec query_conditions of
        Inl e \<Rightarrow> Inl e
      | Inr False \<Rightarrow> Inr False
      | Inr True \<Rightarrow>
     (case tag_passes rec match_tag of
        Inl e \<Rightarrow> Inl e
      | Inr False \<Rightarrow> Inr False
      | Inr True \<Rightarrow>
     (if \<not> group_passes rec group_filter then Inr False
      else
     (case restore_passes rec restore_device of
        Inl e \<Rightarrow> Inl e
      | Inr False \<Rightarrow> Inr False
      | Inr True \<Rightarrow>
     (if \<not> access_passes rec access then Inr False
      else Inr True)))))"

text \<open>
  The selection predicate in the specification's words: the conditions, the tag filter,
  the group filter and the access filter, and nothing else.
\<close>

definition spec_conditions :: "json dict \<Rightarrow> string list list \<Rightarrow> bool" where
  "spec_conditions rec query_conditions =
     list_all (\<lambda>q. 2 \<le> length q \<and> map_of rec (q ! 0) = Some (JStr (q ! 1))) query_conditions"

definition spec_tag :: "json dict \<Rightarrow> string option \<Rightarrow> bool" where
  "spec_tag rec match_tag =
     (case match_tag of
        None \<Rightarrow> True
      | Some t \<Rightarrow> t = [] \<or>
          (case map_of rec ''Tags'' of
             Some (JStr s) \<Rightarrow> t \<in> set (split_on CHR '','' s)
           | _ \<Rightarrow> False))"

definition spec_group :: "json dict \<Rightarrow> string option \<Rightarrow> bool" where
  "spec_group rec group_filter =
     (case group_filter of None \<Rightarrow> True | Some g \<Rightarrow> g = [] \<or> map_of rec ''Group'' = Some (JStr g))"

definition spec_access :: "json dict \<Rightarrow> string \<Rightarrow> bool" where
  "spec_access rec access =
     (access = ''ALL'' \<or>
      (case map_of rec ''Access'' of None \<Rightarrow> access = ''Continuous'' | Some v \<Rightarrow> v = JStr access))"

definition spec_match ::
  "json dict \<Rightarrow> string list list \<Rightarrow> string option \<Rightarrow> string option \<Rightarrow> string \<Rightarrow> bool" where
  "spec_match rec query_conditions match_tag group_filter access =
     (spec_conditions rec query_conditions \<and> spec_tag rec match_tag \<and> spec_group rec group_filter
      \<and> spec_access rec access)"

text \<open>The filter \<^verbatim>\<open>--restore-device\<close> that \<^verbatim>\<open>match_rec\<close> applies as well.\<close>

definition spec_restore :: "json dict \<Rightarrow> string option \<Rightarrow> bool" where
  "spec_restore rec restore_device =
     (case restore_device of
        None \<Rightarrow> True
      | Some r \<Rightarrow> r = [] \<or> r = ''ALL'' \<or> map_of rec ''ID'' = Some (JStr r))"

section \<open>Properties of \<^verbatim>\<open>match_rec\<close>\<close>

lemma conds_hold_True:
  "conds_hold rec qs = Inr True \<longleftrightarrow> spec_conditions rec qs"
proof (induction rec qs rule: conds_hold.induct)
  case (1 rec)
  show ?case by (simp add: spec_conditions_def)
next
  case (2 rec qs)
  show ?case by (simp add: spec_conditions_def)
next
  case (3 rec q0 r qs)
  show ?case
  proof (cases "map_of rec q0")
    case None
    then show ?thesis by (simp add: spec_conditions_def)
  next
    case (Some v)
    show ?thesis
    proof (cases r)
      case Nil
      with Some show ?thesis by (simp add: spec_conditions_def)
    next
      case (Cons q1 r')
      with Some 3 show ?thesis by (auto simp: spec_conditions_def)
    qed
  qed
qed

lemma tag_passes_True: "tag_passes rec t = Inr True \<longleftrightarrow> spec_tag rec t"
  by (cases t) (auto simp: tag_passes_def spec_tag_def split: option.splits json.splits)

lemma group_passes_iff: "group_passes rec g \<longleftrightarrow> spec_group rec g"
  by (cases g) (auto simp: group_passes_def spec_group_def)

lemma restore_passes_True: "restore_passes rec r = Inr True \<longleftrightarrow> spec_restore rec r"
  by (cases r) (auto simp: restore_passes_def spec_restore_def split: option.splits)

lemma access_passes_iff: "access_passes rec a \<longleftrightarrow> spec_access rec a"
  by (auto simp: access_passes_def spec_access_def Let_def split: option.splits)

lemma match_rec_True:
  "match_rec rec qs t g r a = Inr True \<longleftrightarrow>
     conds_hold rec qs = Inr True \<and> tag_passes rec t = Inr True \<and> group_passes rec g
     \<and> restore_passes rec r = Inr True \<and> access_passes rec a"
  by (auto simp: match_rec_def split: sum.splits bool.splits)

text \<open>The three records of the specification's example: tagged A, B, and A and B.\<close>

definition rec_A :: "json dict" where "rec_A = [(''ID'', JStr ''1''), (''Tags'', JStr ''A'')]"
definition rec_B :: "json dict" where "rec_B = [(''ID'', JStr ''2''), (''Tags'', JStr ''B'')]"
definition rec_AB :: "json dict" where "rec_AB = [(''ID'', JStr ''3''), (''Tags'', JStr ''A,B'')]"

lemma match_tag_example:
  "filter (\<lambda>rec. match_rec rec [] (Some ''A'') None None ''ALL'' = Inr True) [rec_A, rec_B, rec_AB]
     = [rec_A, rec_AB]"
  by (simp add: match_rec_def tag_passes_def group_passes_def restore_passes_def
        access_passes_def rec_A_def rec_B_def rec_AB_def)

text \<open>
  C4, as the code has it. A record matches exactly when the conditions, the tag filter, the
  group filter and the access filter hold and, in addition, a \<^verbatim>\<open>--restore-device\<close> filter
  other than \<^verbatim>\<open>ALL\<close> equals the record's \<^verbatim>\<open>ID\<close>; a match-tag filter \<open>A\<close> over records
  tagged A, B and A,B selects the first and the third.
\<close>

theorem match_rec_selection:
  "(match_rec rec query_conditions match_tag group_filter restore_device access = Inr True \<longleftrightarrow>
      spec_match rec query_conditions match_tag group_filter access \<and> spec_restore rec restore_device)
   \<and> filter (\<lambda>rec. match_rec rec [] (Some ''A'') None None ''ALL'' = Inr True) [rec_A, rec_B, rec_AB]
       = [rec_A, rec_AB]"
proof (rule conjI)
  show "match_rec rec query_conditions match_tag group_filter restore_device access = Inr True \<longleftrightarrow>
      spec_match rec query_conditions match_tag group_filter access \<and> spec_restore rec restore_device"
    unfolding match_rec_True conds_hold_True tag_passes_True group_passes_iff
      restore_passes_True access_passes_iff spec_match_def
    by blast
  show "filter (\<lambda>rec. match_rec rec [] (Some ''A'') None None ''ALL'' = Inr True) [rec_A, rec_B, rec_AB]
       = [rec_A, rec_AB]"
    by (rule match_tag_example)
qed

theorem match_rec_selection_witness:
  "match_rec [(''ID'', JStr ''1''), (''Tags'', JStr ''A,B''), (''Group'', JStr ''g'')]
      [[''ID'', ''1'']] (Some ''B'') (Some ''g'') (Some ''1'') ''Continuous'' = Inr True"
  using match_rec_selection [of "[(''ID'', JStr ''1''), (''Tags'', JStr ''A,B''), (''Group'', JStr ''g'')]"
      "[[''ID'', ''1'']]" "Some ''B''" "Some ''g''" "Some ''1''" "''Continuous''"]
  by (simp add: spec_match_def spec_conditions_def spec_tag_def spec_group_def spec_access_def
        spec_restore_def)

text \<open>
  The claim without the restore filter fails: the record below satisfies the four
  conditions of the specification, and \<^verbatim>\<open>match_rec\<close> rejects it for its \<^verbatim>\<open>ID\<close>.
\<close>

theorem match_rec_restore_counterexample:
  "spec_match [(''ID'', JStr ''Y'')] [] None None ''ALL''
   \<and> match_rec [(''ID'', JStr ''Y'')] [] None None (Some ''X'') ''ALL'' = Inr False"
  by (simp add: spec_match_def spec_conditions_def spec_tag_def spec_group_def spec_access_def
        match_rec_def tag_passes_def group_passes_def restore_passes_def access_passes_def)

section \<open>Tag edits in \<^verbatim>\<open>query\<close>\<close>

text \<open>
  For a matched record, \<^verbatim>\<open>query\<close> edits the tags of its flattened map \<^verbatim>\<open>data\<close> and
  writes them to the registry:
  \<^verbatim>\<open>
  if args.set_tag or args.delete_tag:
      need_write = True
      old_tags = data['Tags'].split(',') if 'Tags' in data and data['Tags'] != '' else []
      if args.set_tag:
          data[ 'Tags' ] = ','.join( set( old_tags ).union( [ args.set_tag ] ) )
      if args.delete_tag:
          data[ 'Tags' ] = ','.join( set( old_tags ).difference( [ args.delete_tag ] ) )
      device_db[ data[ 'ID' ] ][ 'Tags' ] = data[ 'Tags' ]
  \<close>
  Python does not fix the order in which a set is iterated: \<open>set_order\<close> gives that order
  for the members listed, and the properties below assume only that it lists each member.
\<close>

definition old_tags_of :: "string dict \<Rightarrow> string list" where
  "old_tags_of data =
     (case map_of data ''Tags'' of
        None \<Rightarrow> []
      | Some s \<Rightarrow> if s \<noteq> [] then split_on CHR '','' s else [])"

text \<open>The two assignments to \<^verbatim>\<open>data['Tags']\<close>.\<close>

definition edit_tags ::
  "(string list \<Rightarrow> string list) \<Rightarrow> string dict \<Rightarrow> string option \<Rightarrow> string option \<Rightarrow> string dict" where
  "edit_tags set_order data set_tag delete_tag =
     (let old_tags = old_tags_of data;
          data1 = (if truthy set_tag
                   then AList.update ''Tags''
                          (join '','' (set_order (old_tags @ [the set_tag]))) data
                   else data)
      in if truthy delete_tag
         then AList.update ''Tags''
                (join '','' (set_order (filter (\<lambda>x. x \<noteq> the delete_tag) old_tags))) data1
         else data1)"

text \<open>\<^verbatim>\<open>device_db[ data[ 'ID' ] ][ 'Tags' ] = data[ 'Tags' ]\<close>\<close>

definition write_tags :: "string dict \<Rightarrow> json \<Rightarrow> error + json" where
  "write_tags data device_db =
     (case map_of data ''Tags'' of
        None \<Rightarrow> Inl (KeyError ''Tags'')
      | Some new_tags \<Rightarrow>
     (case map_of data ''ID'' of
        None \<Rightarrow> Inl (KeyError ''ID'')
      | Some i \<Rightarrow>
     (case py_getitem device_db i of
        Inl e \<Rightarrow> Inl e
      | Inr r \<Rightarrow>
     (case py_setitem r ''Tags'' (JStr new_tags) of
        Inl e \<Rightarrow> Inl e
      | Inr r' \<Rightarrow> py_setitem device_db i r'))))"

definition update_tags ::
  "(string list \<Rightarrow> string list) \<Rightarrow> string dict \<Rightarrow> json \<Rightarrow> string option \<Rightarrow> string option \<Rightarrow> bool
     \<Rightarrow> error + (string dict \<times> json \<times> bool)" where
  "update_tags set_order data device_db set_tag delete_tag need_write =
     (if truthy set_tag \<or> truthy delete_tag then
        (let data' = edit_tags set_order data set_tag delete_tag
         in case write_tags data' device_db of
              Inl e \<Rightarrow> Inl e
            | Inr device_db' \<Rightarrow> Inr (data', device_db', True))
      else Inr (data, device_db, need_write))"


text \<open>A registry with one device, tagged A, and the flattened map of that device.\<close>

definition db_X :: json where
  "db_X = JObj [(''Format'', JStr ''automagic''),
                (''X'', JObj [(''ID'', JStr ''X''), (''Tags'', JStr ''A'')])]"

definition data_X :: "string dict" where
  "data_X = [(''ID'', ''X''), (''Tags'', ''A'')]"

definition db_X_tagged :: "string \<Rightarrow> json" where
  "db_X_tagged s = JObj [(''Format'', JStr ''automagic''),
                (''X'', JObj [(''ID'', JStr ''X''), (''Tags'', JStr s)])]"

section \<open>Properties of the tag edits\<close>













section \<open>Router role switching: \<^verbatim>\<open>ddwrt_program_mode\<close>\<close>

text \<open>
  What the tool does to a router, in order: a command sent through the telnet session
  (\<^verbatim>\<open>ddwrt_do_cmd\<close>), the HTTP post of \<^verbatim>\<open>ddwrt_apply\<close> (address, user, password), a
  \<^verbatim>\<open>time.sleep\<close>, and a \<^verbatim>\<open>ddwrt_sync_connection\<close>.
\<close>

datatype action =
    Telnet string
  | HttpApply string string string
  | Sleep nat
  | Sync

text \<open>
  The router and the network are not part of the program: \<open>world\<close> says, for the actions
  done so far and the next one, whether that one raises, and otherwise what the session
  answers (the lines of standard output and the text of standard error).
\<close>

type_synonym world = "action list \<Rightarrow> action \<Rightarrow> error + (string list \<times> string)"

text \<open>
  A connection \<^verbatim>\<open>cn\<close>: the mode read at connection time (\<^verbatim>\<open>cn['current_mode']\<close>) and
  the router's entry of the router table (\<^verbatim>\<open>cn['router']\<close>).
\<close>

record conn =
  current_mode :: string
  router :: json

text \<open>
  \<^verbatim>\<open>ddwrt_get_single_line_result\<close>: the exception raised, if any, and the history with the
  command added. Its value \<^verbatim>\<open>result[0]\<close> is not used by \<^verbatim>\<open>ddwrt_program_mode\<close>.
\<close>

definition ddwrt_get_single_line_result ::
  "world \<Rightarrow> action list \<Rightarrow> string \<Rightarrow> error option \<times> action list" where
  "ddwrt_get_single_line_result w hist cmd =
     (case w hist (Telnet cmd) of
        Inl e \<Rightarrow> (Some e, hist @ [Telnet cmd])
      | Inr (result, err) \<Rightarrow>
          if err \<noteq> [] then (Some (Exception err), hist @ [Telnet cmd])
          else if length result > 2 then (Some (Exception ''multi-line response''), hist @ [Telnet cmd])
          else if result = [] then (Some IndexError, hist @ [Telnet cmd])
          else (None, hist @ [Telnet cmd]))"

text \<open>
  A \<^verbatim>\<open>for\<close> loop of such commands. A command whose text cannot be built (\<open>Inl\<close>) raises
  before anything is sent; the first exception ends the loop.
\<close>

fun run_cmds :: "world \<Rightarrow> (error + string) list \<Rightarrow> action list \<Rightarrow> error option \<times> action list" where
  "run_cmds w [] hist = (None, hist)"
| "run_cmds w (Inl e # cs) hist = (Some e, hist)"
| "run_cmds w (Inr c # cs) hist =
     (case ddwrt_get_single_line_result w hist c of
        (Some e, hist') \<Rightarrow> (Some e, hist')
      | (None, hist') \<Rightarrow> run_cmds w cs hist')"

text \<open>A string field of a dict: \<^verbatim>\<open>d[k]\<close> used in a string concatenation.\<close>

definition str_field :: "json \<Rightarrow> string \<Rightarrow> error + string" where
  "str_field d k =
     (case py_getitem d k of
        Inl e \<Rightarrow> Inl e
      | Inr (JStr s) \<Rightarrow> Inr s
      | Inr _ \<Rightarrow> Inl TypeError)"

text \<open>\<^verbatim>\<open>cn[ 'router' ][ mode ][ k ]\<close>\<close>

definition router_value :: "conn \<Rightarrow> string \<Rightarrow> string \<Rightarrow> error + string" where
  "router_value cn mode k =
     (case py_getitem (router cn) mode of
        Inl e \<Rightarrow> Inl e
      | Inr snapshot \<Rightarrow> str_field snapshot k)"

definition set_cmds :: "string dict \<Rightarrow> (error + string) list" where
  "set_cmds pgm = map (\<lambda>(k, v). Inr (''nvram set '' @ k @ ''=\"'' @ v @ ''\"'')) pgm"

definition from_db_cmds :: "conn \<Rightarrow> string \<Rightarrow> string list \<Rightarrow> (error + string) list" where
  "from_db_cmds cn mode from_db =
     map (\<lambda>k. case router_value cn mode k of
                 Inl e \<Rightarrow> Inl e
               | Inr v \<Rightarrow> Inr (''nvram set '' @ k @ ''='' @ v)) from_db"

definition unset_cmds :: "string list option \<Rightarrow> (error + string) list" where
  "unset_cmds deletes =
     (case deletes of None \<Rightarrow> [] | Some ks \<Rightarrow> map (\<lambda>k. Inr (''nvram unset '' @ k)) ks)"

definition commit_cmd :: string where
  "commit_cmd = ''nvram commit 2>/dev/null''"

definition restart_cmd :: string where
  "restart_cmd = ''stopservice nas;stopservice wlconf 2>/dev/null;startservice wlconf 2>/dev/null;startservice nas''"

definition radio_cmd :: string where
  "radio_cmd = ''wl radio off; wl radio on''"

text \<open>An action other than a telnet command: it raises or it returns.\<close>

definition perform :: "world \<Rightarrow> action list \<Rightarrow> action \<Rightarrow> error option \<times> action list" where
  "perform w hist a = (case w hist a of Inl e \<Rightarrow> (Some e, hist @ [a]) | Inr _ \<Rightarrow> (None, hist @ [a]))"

text \<open>
  The slow path, after \<^verbatim>\<open>cn['current_mode'] = mode\<close>: \<^verbatim>\<open>ddwrt_apply\<close> with the router's
  address and password, five seconds of sleep, a sync of the session and the radio cycle.
\<close>

definition full_apply :: "world \<Rightarrow> conn \<Rightarrow> action list \<Rightarrow> error option \<times> action list" where
  "full_apply w cn hist =
     (case str_field (router cn) ''address'' of
        Inl e \<Rightarrow> (Some e, hist)
      | Inr address \<Rightarrow>
     (case str_field (router cn) ''password'' of
        Inl e \<Rightarrow> (Some e, hist)
      | Inr password \<Rightarrow>
     (case perform w hist (HttpApply address ''admin'' password) of
        (Some e, hist1) \<Rightarrow> (Some e, hist1)
      | (None, hist1) \<Rightarrow>
     (case perform w hist1 (Sleep 5) of
        (Some e, hist2) \<Rightarrow> (Some e, hist2)
      | (None, hist2) \<Rightarrow>
     (case perform w hist2 Sync of
        (Some e, hist3) \<Rightarrow> (Some e, hist3)
      | (None, hist3) \<Rightarrow> ddwrt_get_single_line_result w hist3 radio_cmd)))))"

text \<open>
  \<^verbatim>\<open>ddwrt_program_mode( cn, pgm, from_db, deletes )\<close>: the exception raised, if any, the
  connection (its recorded mode may have changed) and the history.
\<close>

definition ddwrt_program_mode ::
  "world \<Rightarrow> conn \<Rightarrow> string dict \<Rightarrow> string list \<Rightarrow> string list option \<Rightarrow> action list
     \<Rightarrow> error option \<times> conn \<times> action list" where
  "ddwrt_program_mode w cn pgm from_db deletes hist =
     (case run_cmds w (set_cmds pgm) hist of
        (Some e, hist1) \<Rightarrow> (Some e, cn, hist1)
      | (None, hist1) \<Rightarrow>
     (case map_of pgm ''wl_mode'' of
        None \<Rightarrow> (Some (KeyError ''wl_mode''), cn, hist1)
      | Some mode \<Rightarrow>
     (case run_cmds w (from_db_cmds cn mode from_db @ unset_cmds deletes @ [Inr commit_cmd]) hist1 of
        (Some e, hist2) \<Rightarrow> (Some e, cn, hist2)
      | (None, hist2) \<Rightarrow>
          if current_mode cn = mode then
            (case ddwrt_get_single_line_result w hist2 restart_cmd of
               (r, hist3) \<Rightarrow> (r, cn, hist3))
          else
            (case full_apply w (cn\<lparr>current_mode := mode\<rparr>) hist2 of
               (r, hist3) \<Rightarrow> (r, cn\<lparr>current_mode := mode\<rparr>, hist3)))))"

text \<open>\<^verbatim>\<open>ddwrt_set_sta_mode( cn, ssid )\<close> and \<^verbatim>\<open>ddwrt_set_ap_mode( cn, ssid, password )\<close>.\<close>

definition sta_pgm :: "string \<Rightarrow> string dict" where
  "sta_pgm ssid =
     [(''pptp_use_dhcp'', ''0''), (''wan_gateway'', ''192.168.33.1''), (''wan_ipaddr'', ''192.168.33.10''),
      (''wan_ipaddr_static'', ''..''), (''wan_netmask'', ''255.255.255.0''), (''wan_netmask_static'', ''..''),
      (''wan_proto'', ''static''), (''wl0_akm'', ''disabled''), (''wl0_mode'', ''sta''),
      (''wl0_nctrlsb'', []), (''wl0_security_mode'', ''disabled''), (''wl0_vifs'', []),
      (''wl_mode'', ''sta''), (''wl0_ssid'', ssid), (''wl_ssid'', ssid),
      (''dns_redirect'', ''1''), (''dnsmasq_enable'', ''0''), (''wan_ipaddr_buf'', ''192.168.33.10'')]"

definition ddwrt_set_sta_mode ::
  "world \<Rightarrow> conn \<Rightarrow> string \<Rightarrow> action list \<Rightarrow> error option \<times> conn \<times> action list" where
  "ddwrt_set_sta_mode w cn ssid hist =
     ddwrt_program_mode w cn (sta_pgm ssid)
       [''sta_ifname'', ''wl0_hw_rxchain'', ''wl0_hw_txchain'', ''wan_hwaddr'']
       (Some [''wl0_wpa_psk'']) hist"

definition ap_pgm :: "string \<Rightarrow> string \<Rightarrow> string dict" where
  "ap_pgm ssid password =
     [(''pptp_use_dhcp'', ''1''), (''wan_gateway'', ''0.0.0.0''), (''wan_ipaddr'', ''0.0.0.0''),
      (''wan_netmask'', ''0.0.0.0''), (''wan_proto'', ''disabled''), (''wl0_akm'', ''psk psk2''),
      (''wl0_mode'', ''ap''), (''wl0_nctrlsb'', ''none''), (''wl0_security_mode'', ''psk psk2''),
      (''wl0_ssid'', ssid), (''wl_ssid'', ssid), (''wl0_wpa_psk'', password),
      (''wl_mode'', ''ap''), (''dns_redirect'', ''1''), (''dnsmasq_enable'', ''0'')]"

definition ddwrt_set_ap_mode ::
  "world \<Rightarrow> conn \<Rightarrow> string \<Rightarrow> string \<Rightarrow> action list \<Rightarrow> error option \<times> conn \<times> action list" where
  "ddwrt_set_ap_mode w cn ssid password hist =
     ddwrt_program_mode w cn (ap_pgm ssid password)
       [''wl0_hw_rxchain'', ''wl0_hw_txchain'', ''wan_hwaddr'']
       (Some [''wan_ipaddr_buf'', ''wan_ipaddr_static'', ''wan_netmask_static'', ''wl0_vifs'']) hist"

text \<open>A world in which every action succeeds, with one line of output.\<close>

definition quiet_world :: world where
  "quiet_world hist a = Inr ([[]], [])"

definition sta_node :: conn where
  "sta_node = \<lparr>current_mode = ''sta'',
               router = JObj [(''address'', JStr ''192.168.1.2''), (''password'', JStr ''pw''),
                              (''sta'', JObj [(''sta_ifname'', JStr ''eth1'')])]\<rparr>"

section \<open>Properties of \<^verbatim>\<open>ddwrt_program_mode\<close>\<close>

lemma single_line_log:
  "ddwrt_get_single_line_result w hist c = (r, hist') \<Longrightarrow> hist' = hist @ [Telnet c]"
  by (auto simp: ddwrt_get_single_line_result_def split: sum.splits prod.splits if_splits)

lemma run_cmds_ok:
  "run_cmds w cmds hist = (None, hist') \<Longrightarrow>
     \<exists>cs. cmds = map Inr cs \<and> hist' = hist @ map Telnet cs"
proof (induction w cmds hist rule: run_cmds.induct)
  case (1 w hist)
  then show ?case by simp
next
  case (2 w e cs hist)
  then show ?case by simp
next
  case (3 w c cs hist)
  obtain r l where s: "ddwrt_get_single_line_result w hist c = (r, l)"
    by (cases "ddwrt_get_single_line_result w hist c")
  with 3 have r: "r = None" and rest: "run_cmds w cs l = (None, hist')"
    by (cases r; simp)+
  have l: "l = hist @ [Telnet c]" using s by (rule single_line_log)
  from "3.IH" [OF s [symmetric] r] rest
  obtain cs' where "cs = map Inr cs'" "hist' = l @ map Telnet cs'" by blast
  then have "Inr c # cs = map Inr (c # cs') \<and> hist' = hist @ map Telnet (c # cs')"
    using l by simp
  then show ?case by (rule exI [of _ "c # cs'"])
qed

lemma run_cmds_telnet:
  "run_cmds w cmds hist = (r, hist') \<Longrightarrow>
     \<exists>cs. hist' = hist @ map Telnet cs \<and> (\<forall>c \<in> set cs. Inr c \<in> set cmds)"
proof (induction w cmds hist rule: run_cmds.induct)
  case (1 w hist)
  then show ?case by simp
next
  case (2 w e cs hist)
  then show ?case by simp
next
  case (3 w c cs hist)
  obtain r1 l where s: "ddwrt_get_single_line_result w hist c = (r1, l)"
    by (cases "ddwrt_get_single_line_result w hist c")
  have l: "l = hist @ [Telnet c]" using s by (rule single_line_log)
  show ?case
  proof (cases r1)
    case None
    with 3 s have "run_cmds w cs l = (r, hist')" by simp
    from "3.IH" [OF s [symmetric] None this]
    obtain cs' where "hist' = l @ map Telnet cs'" "\<forall>c \<in> set cs'. Inr c \<in> set cs" by blast
    then have "hist' = hist @ map Telnet (c # cs') \<and> (\<forall>x \<in> set (c # cs'). Inr x \<in> set (Inr c # cs))"
      using l by simp
    then show ?thesis by (rule exI [of _ "c # cs'"])
  next
    case (Some e)
    with 3 s have "hist' = l" by simp
    then have "hist' = hist @ map Telnet [c] \<and> (\<forall>x \<in> set [c]. Inr x \<in> set (Inr c # cs))"
      using l by simp
    then show ?thesis by (rule exI [of _ "[c]"])
  qed
qed

lemma full_apply_ok:
  assumes "full_apply w cn hist = (None, hist')"
  shows "\<exists>address password.
           str_field (router cn) ''address'' = Inr address
         \<and> str_field (router cn) ''password'' = Inr password
         \<and> hist' = hist @ [HttpApply address ''admin'' password, Sleep 5, Sync, Telnet radio_cmd]"
proof -
  obtain address where a: "str_field (router cn) ''address'' = Inr address"
    using assms by (cases "str_field (router cn) ''address''") (simp_all add: full_apply_def)
  obtain password where p: "str_field (router cn) ''password'' = Inr password"
    using assms a by (cases "str_field (router cn) ''password''") (simp_all add: full_apply_def)
  let ?l1 = "hist @ [HttpApply address ''admin'' password]"
  have s1: "perform w hist (HttpApply address ''admin'' password) = (None, ?l1)"
    using assms a p
    by (cases "w hist (HttpApply address ''admin'' password)") (simp_all add: full_apply_def perform_def)
  have s2: "perform w ?l1 (Sleep 5) = (None, ?l1 @ [Sleep 5])"
    using assms a p s1
    by (cases "w ?l1 (Sleep 5)") (simp_all add: full_apply_def perform_def)
  have s3: "perform w (?l1 @ [Sleep 5]) Sync = (None, ?l1 @ [Sleep 5, Sync])"
    using assms a p s1 s2
    by (cases "w (?l1 @ [Sleep 5]) Sync") (simp_all add: full_apply_def perform_def)
  have "ddwrt_get_single_line_result w (?l1 @ [Sleep 5, Sync]) radio_cmd = (None, hist')"
    using assms a p s1 s2 s3 by (simp add: full_apply_def)
  then have "hist' = (?l1 @ [Sleep 5, Sync]) @ [Telnet radio_cmd]"
    by (rule single_line_log)
  with a p show ?thesis by simp
qed

lemma program_mode_ok:
  assumes ok: "ddwrt_program_mode w cn pgm from_db deletes hist = (None, cn', hist')"
  shows "\<exists>mode cs.
           map_of pgm ''wl_mode'' = Some mode
         \<and> map Inr cs = set_cmds pgm @ from_db_cmds cn mode from_db @ unset_cmds deletes @ [Inr commit_cmd]
         \<and> current_mode cn' = mode
         \<and> ((current_mode cn = mode \<longrightarrow>
                 cn' = cn \<and> hist' = hist @ map Telnet cs @ [Telnet restart_cmd])
            \<and> (current_mode cn \<noteq> mode \<longrightarrow> (\<exists>address password.
                   hist' = hist @ map Telnet cs
                            @ [HttpApply address ''admin'' password, Sleep 5, Sync, Telnet radio_cmd])))"
proof -
  obtain r1 hist1 where s1: "run_cmds w (set_cmds pgm) hist = (r1, hist1)"
    by (cases "run_cmds w (set_cmds pgm) hist")
  have r1: "r1 = None" using ok s1 by (cases r1) (simp_all add: ddwrt_program_mode_def)
  obtain mode where mode: "map_of pgm ''wl_mode'' = Some mode"
    using ok s1 r1 by (cases "map_of pgm ''wl_mode''") (simp_all add: ddwrt_program_mode_def)
  let ?rest = "from_db_cmds cn mode from_db @ unset_cmds deletes @ [Inr commit_cmd]"
  obtain r2 hist2 where s2: "run_cmds w ?rest hist1 = (r2, hist2)"
    by (cases "run_cmds w ?rest hist1")
  have r2: "r2 = None" using ok s1 r1 mode s2 by (cases r2) (simp_all add: ddwrt_program_mode_def)
  obtain cs1 where c1: "set_cmds pgm = map Inr cs1" "hist1 = hist @ map Telnet cs1"
    using run_cmds_ok [of w "set_cmds pgm" hist hist1] s1 r1 by blast
  obtain cs2 where c2: "?rest = map Inr cs2" "hist2 = hist1 @ map Telnet cs2"
    using run_cmds_ok [of w ?rest hist1 hist2] s2 r2 by blast
  have cs: "map Inr (cs1 @ cs2) = set_cmds pgm @ ?rest" and l2: "hist2 = hist @ map Telnet (cs1 @ cs2)"
    using c1 c2 by simp_all
  show ?thesis
  proof (cases "current_mode cn = mode")
    case True
    obtain r3 hist3 where s3: "ddwrt_get_single_line_result w hist2 restart_cmd = (r3, hist3)"
      by (cases "ddwrt_get_single_line_result w hist2 restart_cmd")
    have "cn' = cn" "hist' = hist3"
      using ok s1 r1 mode s2 r2 True s3 by (simp_all add: ddwrt_program_mode_def)
    moreover have "hist3 = hist2 @ [Telnet restart_cmd]" using s3 by (rule single_line_log)
    ultimately have "cn' = cn \<and> hist' = hist @ map Telnet (cs1 @ cs2) @ [Telnet restart_cmd]"
      using l2 by simp
    with mode cs True show ?thesis by (intro exI [of _ mode] exI [of _ "cs1 @ cs2"]) simp
  next
    case False
    obtain r3 hist3 where s3: "full_apply w (cn\<lparr>current_mode := mode\<rparr>) hist2 = (r3, hist3)"
      by (cases "full_apply w (cn\<lparr>current_mode := mode\<rparr>) hist2")
    have res: "r3 = None" "cn' = cn\<lparr>current_mode := mode\<rparr>" "hist' = hist3"
      using ok s1 r1 mode s2 r2 False s3 by (simp_all add: ddwrt_program_mode_def)
    obtain address password where
      "hist3 = hist2 @ [HttpApply address ''admin'' password, Sleep 5, Sync, Telnet radio_cmd]"
      using full_apply_ok [of w "cn\<lparr>current_mode := mode\<rparr>" hist2 hist3] s3 res by blast
    then have "hist' = hist @ map Telnet (cs1 @ cs2)
                 @ [HttpApply address ''admin'' password, Sleep 5, Sync, Telnet radio_cmd]"
      using res l2 by simp
    then have "\<exists>address password. hist' = hist @ map Telnet (cs1 @ cs2)
                 @ [HttpApply address ''admin'' password, Sleep 5, Sync, Telnet radio_cmd]"
      by blast
    with mode cs False res show ?thesis
      by (intro exI [of _ mode] exI [of _ "cs1 @ cs2"]) simp
  qed
qed

lemma radio_cmd_not_nvram:
  "Inr radio_cmd \<notin> set (set_cmds pgm)"
  "Inr radio_cmd \<notin> set (from_db_cmds cn mode from_db)"
  "Inr radio_cmd \<notin> set (unset_cmds deletes)"
  "radio_cmd \<noteq> commit_cmd" "radio_cmd \<noteq> restart_cmd"
  by (auto simp: set_cmds_def from_db_cmds_def unset_cmds_def radio_cmd_def commit_cmd_def
        restart_cmd_def split: sum.splits option.splits)

lemma program_mode_fast:
  assumes run: "ddwrt_program_mode w cn pgm from_db deletes hist = (r, cn', hist')"
    and same: "map_of pgm ''wl_mode'' = Some (current_mode cn)"
  shows "\<exists>cs. hist' = hist @ map Telnet cs \<and> radio_cmd \<notin> set cs"
proof -
  let ?mode = "current_mode cn"
  let ?rest = "from_db_cmds cn ?mode from_db @ unset_cmds deletes @ [Inr commit_cmd]"
  obtain r1 hist1 where s1: "run_cmds w (set_cmds pgm) hist = (r1, hist1)"
    by (cases "run_cmds w (set_cmds pgm) hist")
  obtain cs1 where c1: "hist1 = hist @ map Telnet cs1" "\<forall>c \<in> set cs1. Inr c \<in> set (set_cmds pgm)"
    using run_cmds_telnet [OF s1] by blast
  have n1: "radio_cmd \<notin> set cs1" using c1(2) radio_cmd_not_nvram(1) by blast
  show ?thesis
  proof (cases r1)
    case (Some e)
    with run s1 have "hist' = hist1" by (simp add: ddwrt_program_mode_def)
    with c1 n1 show ?thesis by blast
  next
    case None
    obtain r2 hist2 where s2: "run_cmds w ?rest hist1 = (r2, hist2)"
      by (cases "run_cmds w ?rest hist1")
    obtain cs2 where c2: "hist2 = hist1 @ map Telnet cs2" "\<forall>c \<in> set cs2. Inr c \<in> set ?rest"
      using run_cmds_telnet [OF s2] by blast
    have n2: "radio_cmd \<notin> set cs2"
      using c2(2) radio_cmd_not_nvram(2,3,4) by auto
    show ?thesis
    proof (cases r2)
      case (Some e)
      with run s1 None same s2 have "hist' = hist2" by (simp add: ddwrt_program_mode_def)
      then have "hist' = hist @ map Telnet (cs1 @ cs2) \<and> radio_cmd \<notin> set (cs1 @ cs2)"
        using c1 c2 n1 n2 by simp
      then show ?thesis by (rule exI [of _ "cs1 @ cs2"])
    next
      case r2: None
      obtain r3 hist3 where s3: "ddwrt_get_single_line_result w hist2 restart_cmd = (r3, hist3)"
        by (cases "ddwrt_get_single_line_result w hist2 restart_cmd")
      have "hist' = hist3"
        using run s1 None same s2 r2 s3 by (simp add: ddwrt_program_mode_def)
      moreover have "hist3 = hist2 @ [Telnet restart_cmd]" using s3 by (rule single_line_log)
      ultimately have "hist' = hist @ map Telnet (cs1 @ cs2 @ [restart_cmd])
                     \<and> radio_cmd \<notin> set (cs1 @ cs2 @ [restart_cmd])"
        using c1 c2 n1 n2 radio_cmd_not_nvram(5) by simp
      then show ?thesis by (rule exI [of _ "cs1 @ cs2 @ [restart_cmd]"])
    qed
  qed
qed

lemma sta_pgm_mode: "map_of (sta_pgm ssid) ''wl_mode'' = Some ''sta''"
  by (simp add: sta_pgm_def)

lemma ap_pgm_mode: "map_of (ap_pgm ssid password) ''wl_mode'' = Some ''ap''"
  by (simp add: ap_pgm_def)

text \<open>
  Requesting the STA role on a node already in STA mode: telnet commands only, ending,
  when nothing raises, with the service restart.
\<close>

lemma set_sta_mode_on_sta_node:
  assumes "current_mode cn = ''sta''"
    and "ddwrt_set_sta_mode w cn ssid hist = (r, cn', hist')"
  shows "\<exists>cs. hist' = hist @ map Telnet cs \<and> radio_cmd \<notin> set cs
            \<and> (r = None \<longrightarrow> cn' = cn \<and> last cs = restart_cmd)"
proof -
  let ?from = "[''sta_ifname'', ''wl0_hw_rxchain'', ''wl0_hw_txchain'', ''wan_hwaddr'']"
  have run: "ddwrt_program_mode w cn (sta_pgm ssid) ?from (Some [''wl0_wpa_psk'']) hist = (r, cn', hist')"
    using assms(2) by (simp add: ddwrt_set_sta_mode_def)
  have same: "map_of (sta_pgm ssid) ''wl_mode'' = Some (current_mode cn)"
    using assms(1) sta_pgm_mode by simp
  obtain cs where cs: "hist' = hist @ map Telnet cs" "radio_cmd \<notin> set cs"
    using program_mode_fast [OF run same] by blast
  have "cn' = cn \<and> last cs = restart_cmd" if "r = None"
  proof -
    from run that have run0:
      "ddwrt_program_mode w cn (sta_pgm ssid) ?from (Some [''wl0_wpa_psk'']) hist = (None, cn', hist')"
      by simp
    from program_mode_ok [OF run0]
    obtain mode cs' where m: "map_of (sta_pgm ssid) ''wl_mode'' = Some mode"
      and i: "current_mode cn = mode \<longrightarrow>
                 cn' = cn \<and> hist' = hist @ map Telnet cs' @ [Telnet restart_cmd]"
      by auto
    have "mode = current_mode cn" using m same by simp
    with i have c: "cn' = cn" and "hist' = hist @ map Telnet (cs' @ [restart_cmd])" by simp_all
    with cs(1) have eq: "map Telnet cs = map Telnet (cs' @ [restart_cmd])" by simp
    have "inj Telnet" by (simp add: inj_on_def)
    with eq have "cs = cs' @ [restart_cmd]"
      by (simp only: inj_map_eq_map)
    with c show ?thesis by simp
  qed
  with cs show ?thesis by blast
qed

text \<open>
  A router that answers: no action raises, and every command gets one or two lines of
  standard output and nothing on standard error.
\<close>

definition answered :: "error + (string list \<times> string) \<Rightarrow> bool" where
  "answered x =
     (case x of
        Inl e \<Rightarrow> False
      | Inr (result, err) \<Rightarrow> err = [] \<and> result \<noteq> [] \<and> length result \<le> 2)"

lemma single_line_answered:
  "answered (w hist (Telnet c)) \<Longrightarrow>
     ddwrt_get_single_line_result w hist c = (None, hist @ [Telnet c])"
  by (auto simp: answered_def ddwrt_get_single_line_result_def split: sum.splits)

lemma perform_answered:
  "answered (w hist a) \<Longrightarrow> perform w hist a = (None, hist @ [a])"
  by (auto simp: answered_def perform_def split: sum.splits)

lemma run_cmds_answered:
  assumes "\<And>h a. answered (w h a)"
  shows "run_cmds w (map Inr cs) hist = (None, hist @ map Telnet cs)"
  by (induction cs arbitrary: hist) (simp_all add: single_line_answered [OF assms])

lemma full_apply_answered:
  assumes "\<And>h a. answered (w h a)"
    and "str_field (router cn) ''address'' = Inr address"
    and "str_field (router cn) ''password'' = Inr password"
  shows "full_apply w cn hist =
           (None, hist @ [HttpApply address ''admin'' password, Sleep 5, Sync, Telnet radio_cmd])"
  by (simp add: full_apply_def assms(2,3) perform_answered [OF assms(1)]
        single_line_answered [OF assms(1)])

lemma set_cmds_texts:
  "set_cmds pgm = map Inr (map (\<lambda>(k, v). ''nvram set '' @ k @ ''=\"'' @ v @ ''\"'') pgm)"
  by (simp add: set_cmds_def case_prod_beta comp_def)

lemma from_db_cmds_texts:
  "list_all2 (\<lambda>k v. router_value cn mode k = Inr v) from_db vs \<Longrightarrow>
     from_db_cmds cn mode from_db
       = map Inr (map (\<lambda>(k, v). ''nvram set '' @ k @ ''='' @ v) (zip from_db vs))"
  by (induction from_db vs rule: list_all2_induct) (simp_all add: from_db_cmds_def)

lemma unset_cmds_texts:
  "unset_cmds deletes
     = map Inr (case deletes of None \<Rightarrow> [] | Some ks \<Rightarrow> map (\<lambda>k. ''nvram unset '' @ k) ks)"
  by (simp add: unset_cmds_def comp_def split: option.splits)

text \<open>
  With a router that answers and a router table that has the values asked from it, the
  call returns, having sent every \<^verbatim>\<open>nvram\<close> command, the commit, and then the restart or
  the full apply sequence.
\<close>

lemma program_mode_answered:
  assumes w: "\<And>h a. answered (w h a)"
    and mode: "map_of pgm ''wl_mode'' = Some mode"
    and db: "list_all2 (\<lambda>k v. router_value cn mode k = Inr v) from_db vs"
    and nvram: "nvram = map (\<lambda>(k, v). ''nvram set '' @ k @ ''=\"'' @ v @ ''\"'') pgm
                  @ map (\<lambda>(k, v). ''nvram set '' @ k @ ''='' @ v) (zip from_db vs)
                  @ (case deletes of None \<Rightarrow> [] | Some ks \<Rightarrow> map (\<lambda>k. ''nvram unset '' @ k) ks)
                  @ [commit_cmd]"
  shows "current_mode cn = mode \<Longrightarrow>
           ddwrt_program_mode w cn pgm from_db deletes hist
             = (None, cn, hist @ map Telnet nvram @ [Telnet restart_cmd])"
    and "current_mode cn \<noteq> mode \<Longrightarrow> str_field (router cn) ''address'' = Inr address \<Longrightarrow>
         str_field (router cn) ''password'' = Inr password \<Longrightarrow>
           ddwrt_program_mode w cn pgm from_db deletes hist
             = (None, cn\<lparr>current_mode := mode\<rparr>,
                hist @ map Telnet nvram
                  @ [HttpApply address ''admin'' password, Sleep 5, Sync, Telnet radio_cmd])"
proof -
  let ?c1 = "map (\<lambda>(k, v). ''nvram set '' @ k @ ''=\"'' @ v @ ''\"'') pgm"
  let ?c2 = "map (\<lambda>(k, v). ''nvram set '' @ k @ ''='' @ v) (zip from_db vs)
               @ (case deletes of None \<Rightarrow> [] | Some ks \<Rightarrow> map (\<lambda>k. ''nvram unset '' @ k) ks)
               @ [commit_cmd]"
  define h1 where "h1 = hist @ map Telnet ?c1"
  define h2 where "h2 = h1 @ map Telnet ?c2"
  have s1: "run_cmds w (set_cmds pgm) hist = (None, h1)"
    unfolding set_cmds_texts h1_def by (rule run_cmds_answered [OF w])
  have c2: "from_db_cmds cn mode from_db @ unset_cmds deletes @ [Inr commit_cmd] = map Inr ?c2"
    unfolding from_db_cmds_texts [OF db] unfolding unset_cmds_texts by simp
  have s2: "run_cmds w (from_db_cmds cn mode from_db @ unset_cmds deletes @ [Inr commit_cmd]) h1
              = (None, h2)"
    unfolding c2 h2_def by (rule run_cmds_answered [OF w])
  have n: "h2 = hist @ map Telnet nvram"
    unfolding nvram h2_def h1_def by simp
  have s3: "ddwrt_get_single_line_result w h2 restart_cmd = (None, h2 @ [Telnet restart_cmd])"
    by (rule single_line_answered [OF w])
  show "ddwrt_program_mode w cn pgm from_db deletes hist
             = (None, cn, hist @ map Telnet nvram @ [Telnet restart_cmd])"
    if "current_mode cn = mode"
  proof -
    have "ddwrt_program_mode w cn pgm from_db deletes hist = (None, cn, h2 @ [Telnet restart_cmd])"
      using that by (simp add: ddwrt_program_mode_def s1 mode s2 s3)
    then show ?thesis unfolding n by simp
  qed
  show "ddwrt_program_mode w cn pgm from_db deletes hist
             = (None, cn\<lparr>current_mode := mode\<rparr>,
                hist @ map Telnet nvram
                  @ [HttpApply address ''admin'' password, Sleep 5, Sync, Telnet radio_cmd])"
    if "current_mode cn \<noteq> mode" "str_field (router cn) ''address'' = Inr address"
       "str_field (router cn) ''password'' = Inr password"
  proof -
    have s4: "full_apply w (cn\<lparr>current_mode := mode\<rparr>) h2
            = (None, h2 @ [HttpApply address ''admin'' password, Sleep 5, Sync, Telnet radio_cmd])"
      by (rule full_apply_answered [OF w]) (simp_all add: that)
    have "ddwrt_program_mode w cn pgm from_db deletes hist
            = (None, cn\<lparr>current_mode := mode\<rparr>,
               h2 @ [HttpApply address ''admin'' password, Sleep 5, Sync, Telnet radio_cmd])"
      using that(1) by (simp add: ddwrt_program_mode_def s1 mode s2 s4)
    then show ?thesis unfolding n by simp
  qed
qed

text \<open>On the fast path the connection is returned as it was, whatever happens.\<close>

lemma program_mode_fast_conn:
  assumes "ddwrt_program_mode w cn pgm from_db deletes hist = (r, cn', hist')"
    and "map_of pgm ''wl_mode'' = Some (current_mode cn)"
  shows "cn' = cn"
  using assms
  by (auto simp: ddwrt_program_mode_def split: prod.splits option.splits if_splits)

text \<open>
  C8. \<^verbatim>\<open>ddwrt_program_mode\<close> takes the fast path exactly when the node's recorded mode is
  the target role \<^verbatim>\<open>pgm['wl_mode']\<close>. Let the call end with \<open>r\<close> (the exception, if any),
  the connection \<open>cn'\<close> and the actions \<open>hist'\<close>.

  \<^item> On the fast path, whatever the router does, every action is a telnet command and
    none is the radio cycle (no HTTP apply, no sleep, no sync), and the connection is
    unchanged.
  \<^item> When the call returns normally, it has sent the \<^verbatim>\<open>nvram\<close> commands with the commit
    last, and after them only the service restart if the mode was already the target;
    otherwise the HTTP apply, the five-second sleep, the sync and the radio cycle; in both
    cases the recorded mode is the target.
  \<^item> With a router that answers every action, and the values \<open>vs\<close> of the keys
    \<open>from_db\<close> in the router table, the call does return normally: on the fast path
    after the \<^verbatim>\<open>nvram\<close> commands, the commit and the restart, with the connection
    unchanged; otherwise, the router's address and password being in the table, after the
    \<^verbatim>\<open>nvram\<close> commands, the commit, the HTTP apply, the sleep, the sync and the radio
    cycle, with the target role recorded as the current mode.
\<close>

theorem role_switch_fast_path:
  assumes "ddwrt_program_mode w cn pgm from_db deletes hist = (r, cn', hist')"
    and "map_of pgm ''wl_mode'' = Some mode"
  shows "(current_mode cn = mode \<longrightarrow>
            cn' = cn \<and> (\<exists>cs. hist' = hist @ map Telnet cs \<and> radio_cmd \<notin> set cs))
       \<and> (r = None \<longrightarrow>
            (\<exists>cs. map Inr cs = set_cmds pgm @ from_db_cmds cn mode from_db @ unset_cmds deletes
                              @ [Inr commit_cmd]
             \<and> current_mode cn' = mode
             \<and> ((current_mode cn = mode \<longrightarrow>
                     hist' = hist @ map Telnet cs @ [Telnet restart_cmd])
                \<and> (current_mode cn \<noteq> mode \<longrightarrow> (\<exists>address password.
                       hist' = hist @ map Telnet cs
                                @ [HttpApply address ''admin'' password, Sleep 5, Sync,
                                   Telnet radio_cmd])))))
       \<and> ((\<forall>h a. answered (w h a))
          \<and> list_all2 (\<lambda>k v. router_value cn mode k = Inr v) from_db vs
          \<and> nvram = map (\<lambda>(k, v). ''nvram set '' @ k @ ''=\"'' @ v @ ''\"'') pgm
                    @ map (\<lambda>(k, v). ''nvram set '' @ k @ ''='' @ v) (zip from_db vs)
                    @ (case deletes of None \<Rightarrow> []
                       | Some ks \<Rightarrow> map (\<lambda>k. ''nvram unset '' @ k) ks)
                    @ [commit_cmd] \<longrightarrow>
            (current_mode cn = mode \<longrightarrow>
               r = None \<and> cn' = cn \<and> hist' = hist @ map Telnet nvram @ [Telnet restart_cmd])
          \<and> (current_mode cn \<noteq> mode
              \<and> str_field (router cn) ''address'' = Inr address
              \<and> str_field (router cn) ''password'' = Inr password \<longrightarrow>
               r = None \<and> cn' = cn\<lparr>current_mode := mode\<rparr>
             \<and> hist' = hist @ map Telnet nvram
                        @ [HttpApply address ''admin'' password, Sleep 5, Sync,
                           Telnet radio_cmd]))"
proof (intro conjI impI)
  show "cn' = cn" if "current_mode cn = mode"
    using program_mode_fast_conn [OF assms(1)] assms(2) that by simp
  show "\<exists>cs. hist' = hist @ map Telnet cs \<and> radio_cmd \<notin> set cs" if "current_mode cn = mode"
    using program_mode_fast [OF assms(1)] assms(2) that by simp
  show "\<exists>cs. map Inr cs = set_cmds pgm @ from_db_cmds cn mode from_db @ unset_cmds deletes
                              @ [Inr commit_cmd]
             \<and> current_mode cn' = mode
             \<and> ((current_mode cn = mode \<longrightarrow>
                     hist' = hist @ map Telnet cs @ [Telnet restart_cmd])
                \<and> (current_mode cn \<noteq> mode \<longrightarrow> (\<exists>address password.
                       hist' = hist @ map Telnet cs
                                @ [HttpApply address ''admin'' password, Sleep 5, Sync,
                                   Telnet radio_cmd])))"
    if "r = None"
  proof -
    from assms(1) that
    have "ddwrt_program_mode w cn pgm from_db deletes hist = (None, cn', hist')" by simp
    from program_mode_ok [OF this] obtain m cs where
      m: "map_of pgm ''wl_mode'' = Some m"
      and rest: "map Inr cs = set_cmds pgm @ from_db_cmds cn m from_db @ unset_cmds deletes
                   @ [Inr commit_cmd]"
        "current_mode cn' = m"
        "current_mode cn = m \<longrightarrow> cn' = cn \<and> hist' = hist @ map Telnet cs @ [Telnet restart_cmd]"
        "current_mode cn \<noteq> m \<longrightarrow> (\<exists>address password.
           hist' = hist @ map Telnet cs
                    @ [HttpApply address ''admin'' password, Sleep 5, Sync, Telnet radio_cmd])"
      by blast
    from m assms(2) have "m = mode" by simp
    with rest show ?thesis by (intro exI [of _ cs]) simp
  qed
next
  assume a: "(\<forall>h a. answered (w h a))
          \<and> list_all2 (\<lambda>k v. router_value cn mode k = Inr v) from_db vs
          \<and> nvram = map (\<lambda>(k, v). ''nvram set '' @ k @ ''=\"'' @ v @ ''\"'') pgm
                    @ map (\<lambda>(k, v). ''nvram set '' @ k @ ''='' @ v) (zip from_db vs)
                    @ (case deletes of None \<Rightarrow> []
                       | Some ks \<Rightarrow> map (\<lambda>k. ''nvram unset '' @ k) ks)
                    @ [commit_cmd]"
  then have w: "\<And>h a. answered (w h a)" by simp
  note run = program_mode_answered [OF w assms(2) conjunct1 [OF conjunct2 [OF a]]
               conjunct2 [OF conjunct2 [OF a]]]
  {
    assume "current_mode cn = mode"
    from run(1) [OF this] assms(1)
    show "r = None" "cn' = cn" "hist' = hist @ map Telnet nvram @ [Telnet restart_cmd]"
      by simp_all
  }
  {
    assume "current_mode cn \<noteq> mode
              \<and> str_field (router cn) ''address'' = Inr address
              \<and> str_field (router cn) ''password'' = Inr password"
    then have c: "current_mode cn \<noteq> mode" "str_field (router cn) ''address'' = Inr address"
      "str_field (router cn) ''password'' = Inr password"
      by simp_all
    have "ddwrt_program_mode w cn pgm from_db deletes hist
             = (None, cn\<lparr>current_mode := mode\<rparr>,
                hist @ map Telnet nvram
                  @ [HttpApply address ''admin'' password, Sleep 5, Sync, Telnet radio_cmd])"
      by (rule run(2) [OF c])
    with assms(1)
    show "r = None" "cn' = cn\<lparr>current_mode := mode\<rparr>"
      "hist' = hist @ map Telnet nvram
                        @ [HttpApply address ''admin'' password, Sleep 5, Sync,
                           Telnet radio_cmd]"
      by simp_all
  }
qed

text \<open>
  A node in STA mode asked for the STA role, and the same node asked for the AP role,
  with a router that answers every action with one empty line.
\<close>

lemma quiet_world_answered: "answered (quiet_world h a)"
  by (simp add: answered_def quiet_world_def)

lemma sta_node_fields:
  "str_field (router sta_node) ''address'' = Inr ''192.168.1.2''"
  "str_field (router sta_node) ''password'' = Inr ''pw''"
  "router_value sta_node ''sta'' ''sta_ifname'' = Inr ''eth1''"
  "current_mode sta_node = ''sta''"
  by (simp_all add: str_field_def router_value_def sta_node_def)

theorem role_switch_fast_path_witness:
  "ddwrt_program_mode quiet_world sta_node [(''wl_mode'', ''sta'')] [''sta_ifname''] None [] =
     (None, sta_node,
      [Telnet ''nvram set wl_mode=\"sta\"'', Telnet ''nvram set sta_ifname=eth1'',
       Telnet commit_cmd, Telnet restart_cmd])
   \<and> ddwrt_program_mode quiet_world sta_node [(''wl_mode'', ''ap'')] [] None [] =
     (None, sta_node\<lparr>current_mode := ''ap''\<rparr>,
      [Telnet ''nvram set wl_mode=\"ap\"'', Telnet commit_cmd,
       HttpApply ''192.168.1.2'' ''admin'' ''pw'', Sleep 5, Sync, Telnet radio_cmd])"
proof
  let ?run = "ddwrt_program_mode quiet_world sta_node [(''wl_mode'', ''sta'')] [''sta_ifname''] None []"
  have "fst ?run = None \<and> fst (snd ?run) = sta_node
      \<and> snd (snd ?run) = [Telnet ''nvram set wl_mode=\"sta\"'', Telnet ''nvram set sta_ifname=eth1'',
                           Telnet commit_cmd, Telnet restart_cmd]"
    using role_switch_fast_path [of quiet_world sta_node "[(''wl_mode'', ''sta'')]"
            "[''sta_ifname'']" None "[]" "fst ?run" "fst (snd ?run)" "snd (snd ?run)" "''sta''"
            "[''eth1'']"
            "[''nvram set wl_mode=\"sta\"'', ''nvram set sta_ifname=eth1'', commit_cmd]"]
    by (simp add: quiet_world_answered sta_node_fields)
  then show "?run = (None, sta_node,
      [Telnet ''nvram set wl_mode=\"sta\"'', Telnet ''nvram set sta_ifname=eth1'',
       Telnet commit_cmd, Telnet restart_cmd])"
    by (simp add: prod_eq_iff)
next
  let ?run = "ddwrt_program_mode quiet_world sta_node [(''wl_mode'', ''ap'')] [] None []"
  have "fst ?run = None \<and> fst (snd ?run) = sta_node\<lparr>current_mode := ''ap''\<rparr>
      \<and> snd (snd ?run) = [Telnet ''nvram set wl_mode=\"ap\"'', Telnet commit_cmd,
           HttpApply ''192.168.1.2'' ''admin'' ''pw'', Sleep 5, Sync, Telnet radio_cmd]"
    using role_switch_fast_path [of quiet_world sta_node "[(''wl_mode'', ''ap'')]"
            "[]" None "[]" "fst ?run" "fst (snd ?run)" "snd (snd ?run)" "''ap''"
            "[]" "[''nvram set wl_mode=\"ap\"'', commit_cmd]" "''192.168.1.2''" "''pw''"]
    by (simp add: quiet_world_answered sta_node_fields)
  then show "?run = (None, sta_node\<lparr>current_mode := ''ap''\<rparr>,
      [Telnet ''nvram set wl_mode=\"ap\"'', Telnet commit_cmd,
       HttpApply ''192.168.1.2'' ''admin'' ''pw'', Sleep 5, Sync, Telnet radio_cmd])"
    by (simp add: prod_eq_iff)
qed

section \<open>Firmware update: \<^verbatim>\<open>flash_device\<close>\<close>

text \<open>
  The device's answer to \<^verbatim>\<open>/ota\<close>, as far as \<^verbatim>\<open>flash_device\<close> reads it: the fields
  \<^verbatim>\<open>status\<close> and \<^verbatim>\<open>old_version\<close>. \<^verbatim>\<open>get_url\<close> gives \<^verbatim>\<open>None\<close> after ten failed tries.
\<close>

record ota_status =
  status :: string
  old_version :: string

text \<open>
  \<^verbatim>\<open>flash_device\<close> returns \<^verbatim>\<open>True\<close> or \<^verbatim>\<open>False\<close> and tells the outcomes apart by what
  it prints; the report names the message.
\<close>

datatype ota_report =
    NoCurrentVersion
  | UpToDate
  | AlreadyUpdating
  | CouldNotFlash
  | NotVerified
  | PollFailed
  | Updated string string
  | UnexpectedBuild string
  | NeverUpdating
  | StillHas string

text \<open>
  After the loop (its condition false, or the \<^verbatim>\<open>break\<close>): the message
  \<^verbatim>\<open>possible OTA failure ... still has\<close> with \<^verbatim>\<open>new_result['old_version']\<close>, a name that
  is unbound when the loop body never ran.
\<close>

definition after_loop :: "ota_status option \<Rightarrow> (error + bool \<times> ota_report) option" where
  "after_loop new_result =
     (case new_result of
        None \<Rightarrow> Some (Inl NameError)
      | Some nr \<Rightarrow> Some (Inr (False, StillHas (old_version nr))))"

text \<open>
  The polling loop
  \<^verbatim>\<open>while time.time( ) < start_time + ota_timeout\<close>. Each event is one turn of the loop:
  the clock read by the loop test, and the answer to the poll that follows when the test
  holds. The events are what the device and the clock do, so the loop is a recursion on
  their list; \<open>None\<close> says that the list ended before the loop did.
\<close>

fun poll_loop ::
  "string \<Rightarrow> string \<Rightarrow> real \<Rightarrow> nat \<Rightarrow> bool \<Rightarrow> ota_status option
     \<Rightarrow> (real \<times> ota_status option) list \<Rightarrow> (error + bool \<times> ota_report) option" where
  "poll_loop old nv deadline passes seen_updating new_result [] = None"
| "poll_loop old nv deadline passes seen_updating new_result ((t, answer) # events) =
     (if t < deadline then
        (case answer of
           None \<Rightarrow> Some (Inr (False, PollFailed))
         | Some nr \<Rightarrow>
             if status nr = ''updating'' then
               poll_loop old nv deadline (passes + 1) True (Some nr) events
             else if seen_updating then
               (if nv = [] \<or> old \<noteq> old_version nr then
                  (if nv = [] \<or> old_version nr = nv
                   then Some (Inr (True, Updated old (old_version nr)))
                   else Some (Inr (False, UnexpectedBuild (old_version nr))))
                else after_loop (Some nr))
             else if passes + 1 > 10 then Some (Inr (False, NeverUpdating))
             else poll_loop old nv deadline (passes + 1) False (Some nr) events)
      else after_loop new_result)"

text \<open>
  \<^verbatim>\<open>flash_device\<close> from the first read of \<^verbatim>\<open>/ota\<close> on. \<open>new_version\<close> is the target
  version after the symbolic \<^verbatim>\<open>LATEST\<close> has been resolved, \<open>flashed\<close> whether
  \<^verbatim>\<open>ota_flash\<close> got an answer, \<open>start_time\<close> the clock read before the loop.
  \<^verbatim>\<open>"New version: " + new_version\<close> raises \<^verbatim>\<open>TypeError\<close> when there is no target.
\<close>

definition flash_device ::
  "ota_status option \<Rightarrow> string option \<Rightarrow> bool \<Rightarrow> int \<Rightarrow> real
     \<Rightarrow> (real \<times> ota_status option) list \<Rightarrow> (error + bool \<times> ota_report) option" where
  "flash_device result new_version flashed ota_timeout start_time events =
     (case result of
        None \<Rightarrow> Some (Inr (False, NoCurrentVersion))
      | Some r \<Rightarrow>
          if Some (old_version r) = new_version then Some (Inr (True, UpToDate))
          else if status r = ''updating'' then Some (Inr (False, AlreadyUpdating))
          else if flashed then
            (case new_version of
               None \<Rightarrow> Some (Inl TypeError)
             | Some nv \<Rightarrow>
                 if ota_timeout = 0 then Some (Inr (True, NotVerified))
                 else poll_loop (old_version r) nv (start_time + real_of_int ota_timeout)
                        0 False None events)
          else Some (Inr (False, CouldNotFlash)))"

text \<open>A poll in time that shows the device updating, and one that shows it not updating.\<close>

definition updating_poll :: "real \<Rightarrow> real \<times> ota_status option \<Rightarrow> bool" where
  "updating_poll deadline e =
     (fst e < deadline \<and> (case snd e of None \<Rightarrow> False | Some nr \<Rightarrow> status nr = ''updating''))"

definition idle_poll :: "real \<Rightarrow> real \<times> ota_status option \<Rightarrow> bool" where
  "idle_poll deadline e =
     (fst e < deadline \<and> (case snd e of None \<Rightarrow> False | Some nr \<Rightarrow> status nr \<noteq> ''updating''))"

section \<open>Properties of the polling loop\<close>

text \<open>
  Polls in time that do not show \<^verbatim>\<open>updating\<close>, ten at most since the loop began, are
  passed over: the loop goes on behind them, with the last answer as \<^verbatim>\<open>new_result\<close>.
\<close>

lemma poll_loop_idle_run:
  "list_all (idle_poll deadline) idles \<Longrightarrow> passes + length idles \<le> 10 \<Longrightarrow>
     poll_loop old nv deadline passes False new_result (idles @ rest) =
     poll_loop old nv deadline (passes + length idles) False
       (if idles = [] then new_result else snd (last idles)) rest"
proof (induction idles arbitrary: passes new_result)
  case Nil
  then show ?case by simp
next
  case (Cons e idles)
  obtain t nr where e: "e = (t, Some nr)" "t < deadline" "status nr \<noteq> ''updating''"
    using Cons.prems(1) by (cases e; cases "snd e") (auto simp: idle_poll_def)
  have step: "poll_loop old nv deadline passes False new_result ((e # idles) @ rest) =
              poll_loop old nv deadline (passes + 1) False (Some nr) (idles @ rest)"
    using e Cons.prems(2) by simp
  have "poll_loop old nv deadline (passes + 1) False (Some nr) (idles @ rest) =
        poll_loop old nv deadline (passes + 1 + length idles) False
          (if idles = [] then Some nr else snd (last idles)) rest"
    using Cons.IH [of "passes + 1" "Some nr"] Cons.prems by simp
  with step e(1) show ?case by (simp add: add.commute add.left_commute)
qed

text \<open>The eleventh such poll ends the flow: \<^verbatim>\<open>passes > 10\<close>.\<close>

lemma poll_loop_never_updating:
  assumes "list_all (idle_poll deadline) idles" and "length idles = 11"
  shows "poll_loop old nv deadline 0 False None (idles @ rest) = Some (Inr (False, NeverUpdating))"
proof -
  obtain front e where split: "idles = front @ [e]" and len: "length front = 10"
    using assms(2) by (cases idles rule: rev_cases) auto
  have front: "list_all (idle_poll deadline) front" and e: "idle_poll deadline e"
    using assms(1) split by simp_all
  have run: "poll_loop old nv deadline 0 False None (front @ ([e] @ rest)) =
     poll_loop old nv deadline (0 + length front) False
       (if front = [] then None else snd (last front)) ([e] @ rest)"
    by (rule poll_loop_idle_run [OF front]) (simp add: len)
  obtain t nr' where e': "e = (t, Some nr')" "t < deadline" "status nr' \<noteq> ''updating''"
    using e by (cases e; cases "snd e") (auto simp: idle_poll_def)
  have "poll_loop old nv deadline 10 False new_result ([e] @ rest) = Some (Inr (False, NeverUpdating))"
    for new_result
    using e' by simp
  with run len split show ?thesis by simp
qed

text \<open>Polls in time that show \<^verbatim>\<open>updating\<close> set \<^verbatim>\<open>seen_updating\<close>, whatever came before.\<close>

lemma poll_loop_updating_run:
  "list_all (updating_poll deadline) ups \<Longrightarrow> ups \<noteq> [] \<Longrightarrow>
     poll_loop old nv deadline passes seen new_result (ups @ rest) =
     poll_loop old nv deadline (passes + length ups) True (snd (last ups)) rest"
proof (induction ups arbitrary: passes seen new_result)
  case Nil
  then show ?case by simp
next
  case (Cons e ups)
  obtain t nr where e: "e = (t, Some nr)" "t < deadline" "status nr = ''updating''"
    using Cons.prems(1) by (cases e; cases "snd e") (auto simp: updating_poll_def)
  have step: "poll_loop old nv deadline passes seen new_result ((e # ups) @ rest) =
              poll_loop old nv deadline (passes + 1) True (Some nr) (ups @ rest)"
    using e by simp
  show ?case
  proof (cases "ups = []")
    case True
    with step e show ?thesis by simp
  next
    case False
    have "poll_loop old nv deadline (passes + 1) True (Some nr) (ups @ rest) =
           poll_loop old nv deadline (passes + 1 + length ups) True (snd (last ups)) rest"
      using Cons.IH [of "passes + 1" True "Some nr"] Cons.prems False by simp
    with step False show ?thesis by (simp add: add.commute add.left_commute)
  qed
qed

lemma last_poll:
  assumes "list_all P polls" and "polls \<noteq> []"
    and "\<And>e. P e \<Longrightarrow> \<exists>nr. snd e = Some nr"
  shows "\<exists>nr. snd (last polls) = Some nr"
proof -
  from assms(2) have "last polls \<in> set polls" by simp
  with assms(1) have "P (last polls)" by (simp add: list_all_iff)
  then show ?thesis by (rule assms(3))
qed

lemma poll_answers:
  "idle_poll deadline e \<Longrightarrow> \<exists>nr. snd e = Some nr"
  "updating_poll deadline e \<Longrightarrow> \<exists>nr. snd e = Some nr"
  by (cases "snd e"; simp add: idle_poll_def updating_poll_def)+

text \<open>
  The three ways the loop ends after at most ten polls without \<^verbatim>\<open>updating\<close>: the update
  is seen and then, in time, the target version; the update is seen and the deadline passes;
  the deadline passes with no update seen.
\<close>

lemma poll_loop_success:
  assumes "list_all (idle_poll deadline) idles" and "length idles \<le> 10"
    and "list_all (updating_poll deadline) ups" and "ups \<noteq> []"
    and "t < deadline" and "status fin \<noteq> ''updating''"
    and "old_version fin = nv" and "old \<noteq> nv"
  shows "poll_loop old nv deadline 0 False None (idles @ ups @ (t, Some fin) # rest)
           = Some (Inr (True, Updated old nv))"
proof -
  have "poll_loop old nv deadline 0 False None (idles @ ups @ (t, Some fin) # rest) =
        poll_loop old nv deadline (0 + length idles) False
          (if idles = [] then None else snd (last idles)) (ups @ (t, Some fin) # rest)"
    by (rule poll_loop_idle_run [OF assms(1)]) (simp add: assms(2))
  also have "\<dots> = poll_loop old nv deadline (0 + length idles + length ups) True (snd (last ups))
                     ((t, Some fin) # rest)"
    by (rule poll_loop_updating_run [OF assms(3,4)])
  also have "\<dots> = Some (Inr (True, Updated old nv))"
    using assms(5-8) by simp
  finally show ?thesis .
qed

lemma poll_loop_timeout:
  assumes "list_all (idle_poll deadline) idles" and "length idles \<le> 10"
    and "list_all (updating_poll deadline) ups" and "ups \<noteq> []" and "\<not> t < deadline"
  shows "\<exists>nr. snd (last ups) = Some nr
           \<and> poll_loop old nv deadline 0 False None (idles @ ups @ (t, answer) # rest)
               = Some (Inr (False, StillHas (old_version nr)))"
proof -
  have "\<exists>nr. snd (last ups) = Some nr"
    by (rule last_poll [OF assms(3,4)]) (rule poll_answers(2))
  then obtain nr where nr: "snd (last ups) = Some nr" by blast
  have "poll_loop old nv deadline 0 False None (idles @ ups @ (t, answer) # rest) =
        poll_loop old nv deadline (0 + length idles) False
          (if idles = [] then None else snd (last idles)) (ups @ (t, answer) # rest)"
    by (rule poll_loop_idle_run [OF assms(1)]) (simp add: assms(2))
  also have "\<dots> = poll_loop old nv deadline (0 + length idles + length ups) True (snd (last ups))
                     ((t, answer) # rest)"
    by (rule poll_loop_updating_run [OF assms(3,4)])
  also have "\<dots> = Some (Inr (False, StillHas (old_version nr)))"
    using assms(5) by (simp add: after_loop_def nr)
  finally show ?thesis using nr by blast
qed

lemma poll_loop_early_deadline:
  assumes "list_all (idle_poll deadline) idles" and "length idles \<le> 10" and "idles \<noteq> []"
    and "\<not> t < deadline"
  shows "\<exists>nr. snd (last idles) = Some nr
           \<and> poll_loop old nv deadline 0 False None (idles @ (t, answer) # rest)
               = Some (Inr (False, StillHas (old_version nr)))"
proof -
  have "\<exists>nr. snd (last idles) = Some nr"
    by (rule last_poll [OF assms(1,3)]) (rule poll_answers(1))
  then obtain nr where nr: "snd (last idles) = Some nr" by blast
  have "poll_loop old nv deadline 0 False None (idles @ (t, answer) # rest) =
        poll_loop old nv deadline (0 + length idles) False
          (if idles = [] then None else snd (last idles)) ((t, answer) # rest)"
    by (rule poll_loop_idle_run [OF assms(1)]) (simp add: assms(2))
  also have "\<dots> = Some (Inr (False, StillHas (old_version nr)))"
    using assms(3,4) by (simp add: after_loop_def nr)
  finally show ?thesis using nr by blast
qed

lemma flash_device_polls:
  assumes "status r \<noteq> ''updating''" and "old_version r \<noteq> nv" and "ota_timeout \<noteq> 0"
  shows "flash_device (Some r) (Some nv) True ota_timeout start_time events =
         poll_loop (old_version r) nv (start_time + real_of_int ota_timeout) 0 False None events"
  using assms by (simp add: flash_device_def)

text \<open>
  C5, as the code has it. The device answered \<^verbatim>\<open>/ota\<close> with a status other than
  \<^verbatim>\<open>updating\<close> and a version \<open>v1\<close> other than the target \<open>v2\<close>, the OTA request was
  accepted and the timeout is not zero; the deadline is the start of the loop plus the
  timeout. A poll counts when the loop test before it found the clock before the deadline.

  When eleven polls count and none shows \<^verbatim>\<open>updating\<close>, the flow fails with the report
  that the status was never observed. When at most ten polls without \<^verbatim>\<open>updating\<close> are
  followed by polls with it (one or more) and then by a poll with another status and the
  version \<open>v2\<close>, the flow succeeds and reports the update from \<open>v1\<close> to \<open>v2\<close>. When the
  deadline passes while the polls show \<^verbatim>\<open>updating\<close>, the flow fails with the report that
  the device still has the build of the last poll. And when the deadline passes after one
  to ten polls none of which showed \<^verbatim>\<open>updating\<close>, the flow fails with that same report,
  not with the one for a status never observed.
\<close>

theorem ota_polling_outcomes:
  assumes "status r \<noteq> ''updating''" and "old_version r = v1" and "v1 \<noteq> v2" and "ota_timeout \<noteq> 0"
    and "deadline = start_time + real_of_int ota_timeout"
  shows "(list_all (idle_poll deadline) idles \<and> length idles = 11 \<longrightarrow>
            flash_device (Some r) (Some v2) True ota_timeout start_time (idles @ rest)
              = Some (Inr (False, NeverUpdating)))
       \<and> (list_all (idle_poll deadline) idles \<and> length idles \<le> 10
            \<and> list_all (updating_poll deadline) ups \<and> ups \<noteq> [] \<and> t < deadline
            \<and> status fin \<noteq> ''updating'' \<and> old_version fin = v2 \<longrightarrow>
            flash_device (Some r) (Some v2) True ota_timeout start_time
                (idles @ ups @ (t, Some fin) # rest)
              = Some (Inr (True, Updated v1 v2)))
       \<and> (list_all (idle_poll deadline) idles \<and> length idles \<le> 10
            \<and> list_all (updating_poll deadline) ups \<and> ups \<noteq> [] \<and> \<not> t < deadline \<longrightarrow>
            (\<exists>nr. snd (last ups) = Some nr
               \<and> flash_device (Some r) (Some v2) True ota_timeout start_time
                     (idles @ ups @ (t, answer) # rest)
                   = Some (Inr (False, StillHas (old_version nr)))))
       \<and> (list_all (idle_poll deadline) idles \<and> length idles \<le> 10 \<and> idles \<noteq> []
            \<and> \<not> t < deadline \<longrightarrow>
            (\<exists>nr. snd (last idles) = Some nr
               \<and> flash_device (Some r) (Some v2) True ota_timeout start_time
                     (idles @ (t, answer) # rest)
                   = Some (Inr (False, StillHas (old_version nr)))))"
proof -
  have polls: "flash_device (Some r) (Some v2) True ota_timeout start_time events =
         poll_loop v1 v2 deadline 0 False None events" for events
    using assms flash_device_polls [of r v2 ota_timeout start_time events] by simp
  show ?thesis
    unfolding polls
  proof (intro conjI impI)
    assume "list_all (idle_poll deadline) idles \<and> length idles = 11"
    then show "poll_loop v1 v2 deadline 0 False None (idles @ rest) = Some (Inr (False, NeverUpdating))"
      using poll_loop_never_updating [of deadline idles v1 v2 rest] by simp
  next
    assume "list_all (idle_poll deadline) idles \<and> length idles \<le> 10
            \<and> list_all (updating_poll deadline) ups \<and> ups \<noteq> [] \<and> t < deadline
            \<and> status fin \<noteq> ''updating'' \<and> old_version fin = v2"
    then show "poll_loop v1 v2 deadline 0 False None (idles @ ups @ (t, Some fin) # rest)
              = Some (Inr (True, Updated v1 v2))"
      using poll_loop_success [of deadline idles ups t fin v2 v1 rest] assms(3) by simp
  next
    assume "list_all (idle_poll deadline) idles \<and> length idles \<le> 10
            \<and> list_all (updating_poll deadline) ups \<and> ups \<noteq> [] \<and> \<not> t < deadline"
    then show "\<exists>nr. snd (last ups) = Some nr
               \<and> poll_loop v1 v2 deadline 0 False None (idles @ ups @ (t, answer) # rest)
                   = Some (Inr (False, StillHas (old_version nr)))"
      using poll_loop_timeout [of deadline idles ups t v1 v2 answer rest] by simp
  next
    assume "list_all (idle_poll deadline) idles \<and> length idles \<le> 10 \<and> idles \<noteq> []
            \<and> \<not> t < deadline"
    then show "\<exists>nr. snd (last idles) = Some nr
               \<and> poll_loop v1 v2 deadline 0 False None (idles @ (t, answer) # rest)
                   = Some (Inr (False, StillHas (old_version nr)))"
      using poll_loop_early_deadline [of deadline idles t v1 v2 answer rest] by simp
  qed
qed

text \<open>A simulated device: idle at version 1, updating, and idle at version 2.\<close>

definition idle_v1 :: ota_status where
  "idle_v1 = \<lparr>status = ''idle'', old_version = ''v1''\<rparr>"

definition idle_v2 :: ota_status where
  "idle_v2 = \<lparr>status = ''idle'', old_version = ''v2''\<rparr>"

definition updating_v1 :: ota_status where
  "updating_v1 = \<lparr>status = ''updating'', old_version = ''v1''\<rparr>"

lemma simulated_polls:
  "idle_poll 360 (3, Some idle_v1)" "updating_poll 360 (3, Some updating_v1)"
  "status idle_v1 \<noteq> ''updating''" "old_version idle_v1 = ''v1''"
  "status idle_v2 \<noteq> ''updating''" "old_version idle_v2 = ''v2''"
  "old_version updating_v1 = ''v1''"
  by (simp_all add: idle_poll_def updating_poll_def idle_v1_def idle_v2_def updating_v1_def)

lemma simulated_runs:
  "list_all (idle_poll 360) (replicate 11 (3, Some idle_v1))"
  "length (replicate 11 (3 :: real, Some idle_v1)) = 11"
  "list_all (idle_poll 360) [(3, Some idle_v1)]"
  "list_all (updating_poll 360) [(3, Some updating_v1), (3, Some updating_v1)]"
  by (simp_all add: list_all_iff simulated_polls)

text \<open>
  The runs of the specification, with a timeout of 360 seconds: idle at \<open>v1\<close> for eleven
  polls; idle at \<open>v1\<close>, updating twice, idle at \<open>v2\<close>; and the same with the deadline
  passed (clock 400) in place of the last poll, after the updating polls and after the
  idle one.
\<close>

theorem ota_polling_outcomes_witness:
  "flash_device (Some idle_v1) (Some ''v2'') True 360 0 (replicate 11 (3, Some idle_v1) @ [])
     = Some (Inr (False, NeverUpdating))
   \<and> flash_device (Some idle_v1) (Some ''v2'') True 360 0
       ([(3, Some idle_v1)] @ [(3, Some updating_v1), (3, Some updating_v1)] @ (3, Some idle_v2) # [])
     = Some (Inr (True, Updated ''v1'' ''v2''))
   \<and> flash_device (Some idle_v1) (Some ''v2'') True 360 0
       ([(3, Some idle_v1)] @ [(3, Some updating_v1), (3, Some updating_v1)] @ (400, None) # [])
     = Some (Inr (False, StillHas ''v1''))
   \<and> flash_device (Some idle_v1) (Some ''v2'') True 360 0 ([(3, Some idle_v1)] @ (400, None) # [])
     = Some (Inr (False, StillHas ''v1''))"
  using ota_polling_outcomes [of idle_v1 "''v1''" "''v2''" 360 360 0
          "replicate 11 (3, Some idle_v1)" "[]"
          "[(3, Some updating_v1), (3, Some updating_v1)]" 3 idle_v2]
        ota_polling_outcomes [of idle_v1 "''v1''" "''v2''" 360 360 0
          "[(3, Some idle_v1)]" "[]"
          "[(3, Some updating_v1), (3, Some updating_v1)]" 3 idle_v2]
        ota_polling_outcomes [of idle_v1 "''v1''" "''v2''" 360 360 0
          "[(3, Some idle_v1)]" "[]"
          "[(3, Some updating_v1), (3, Some updating_v1)]" 400 idle_v2 None]
        simulated_polls simulated_runs
  by simp

text \<open>
  The claim fails when the timeout is short. With a timeout of 30 seconds and a poll every
  three seconds, a device that stays idle at \<open>v1\<close> is polled ten times before the deadline
  has passed: it never showed \<^verbatim>\<open>updating\<close>, and the flow fails with the report that it
  still has \<open>v1\<close>, the very report a device gets that showed \<^verbatim>\<open>updating\<close> at every one of
  these polls.
\<close>

theorem ota_short_timeout_counterexample:
  "flash_device (Some idle_v1) (Some ''v2'') True 30 0
       (map (\<lambda>i. (3 * real i, Some idle_v1)) [0..<10] @ [(30, None)])
     = Some (Inr (False, StillHas ''v1''))
   \<and> flash_device (Some idle_v1) (Some ''v2'') True 30 0
       (map (\<lambda>i. (3 * real i, Some updating_v1)) [0..<10] @ [(30, None)])
     = Some (Inr (False, StillHas ''v1''))"
  by (simp add: flash_device_def after_loop_def idle_v1_def updating_v1_def upt_rec)

section \<open>The device queue: \<^verbatim>\<open>read_device_queue\<close>\<close>

text \<open>
  For \<^verbatim>\<open>provision-list\<close> the generator walks the queue:
  \<^verbatim>\<open>
  for rec in device_queue:
      if 'ConfigInput' not in rec:
          continue
      cfg = rec[ 'ConfigInput' ]
      if 'ConfigStatus' in rec and 'CompletedTime' in rec['ConfigStatus'] or \
          args.group and ( not 'Group' in cfg or cfg[ 'Group' ] != args.group ) or \
          ssid and ssid != cfg[ 'SSID' ]:
          continue
      if 'ConfigStatus' not in rec: rec[ 'ConfigStatus' ] = {}
      rec[ 'ConfigStatus' ][ 'InProgressTime' ] = time.time()
      yield rec
  \<close>
  (For the other operations it yields a fresh record for the given SSID for ever; there is
  no queue then.) The three tests are joined by \<^verbatim>\<open>or\<close>: a later one is evaluated only
  when the earlier ones are false.
\<close>

definition or_else :: "error + bool \<Rightarrow> error + bool \<Rightarrow> error + bool" where
  "or_else a b = (case a of Inl e \<Rightarrow> Inl e | Inr True \<Rightarrow> Inr True | Inr False \<Rightarrow> b)"

definition has_completed :: "json \<Rightarrow> error + bool" where
  "has_completed rec =
     (case py_in ''ConfigStatus'' rec of
        Inl e \<Rightarrow> Inl e
      | Inr False \<Rightarrow> Inr False
      | Inr True \<Rightarrow>
          (case py_getitem rec ''ConfigStatus'' of
             Inl e \<Rightarrow> Inl e
           | Inr cs \<Rightarrow> py_in ''CompletedTime'' cs))"

definition group_mismatch :: "string option \<Rightarrow> json \<Rightarrow> error + bool" where
  "group_mismatch group_filter cfg =
     (if truthy group_filter then
        (case py_in ''Group'' cfg of
           Inl e \<Rightarrow> Inl e
         | Inr False \<Rightarrow> Inr True
         | Inr True \<Rightarrow>
             (case py_getitem cfg ''Group'' of
                Inl e \<Rightarrow> Inl e
              | Inr v \<Rightarrow> Inr (v \<noteq> JStr (the group_filter))))
      else Inr False)"

definition ssid_mismatch :: "string option \<Rightarrow> json \<Rightarrow> error + bool" where
  "ssid_mismatch ssid cfg =
     (if truthy ssid then
        (case py_getitem cfg ''SSID'' of
           Inl e \<Rightarrow> Inl e
         | Inr v \<Rightarrow> Inr (JStr (the ssid) \<noteq> v))
      else Inr False)"

text \<open>The two assignments before the \<^verbatim>\<open>yield\<close>.\<close>

definition mark_in_progress :: "real \<Rightarrow> json \<Rightarrow> error + json" where
  "mark_in_progress now rec =
     (case py_in ''ConfigStatus'' rec of
        Inl e \<Rightarrow> Inl e
      | Inr present \<Rightarrow>
     (case (if present then Inr rec else py_setitem rec ''ConfigStatus'' (JObj [])) of
        Inl e \<Rightarrow> Inl e
      | Inr rec1 \<Rightarrow>
     (case py_getitem rec1 ''ConfigStatus'' of
        Inl e \<Rightarrow> Inl e
      | Inr cs \<Rightarrow>
     (case py_setitem cs ''InProgressTime'' (JFloat now) of
        Inl e \<Rightarrow> Inl e
      | Inr cs' \<Rightarrow> py_setitem rec1 ''ConfigStatus'' cs'))))"

text \<open>
  One turn of the \<^verbatim>\<open>for\<close> loop on a record: \<open>Inr None\<close> is \<^verbatim>\<open>continue\<close>,
  \<open>Inr (Some rec')\<close> yields the record as it is after the assignments.
\<close>

definition queue_step :: "string option \<Rightarrow> string option \<Rightarrow> real \<Rightarrow> json \<Rightarrow> error + json option" where
  "queue_step group_filter ssid now rec =
     (case py_in ''ConfigInput'' rec of
        Inl e \<Rightarrow> Inl e
      | Inr False \<Rightarrow> Inr None
      | Inr True \<Rightarrow>
     (case py_getitem rec ''ConfigInput'' of
        Inl e \<Rightarrow> Inl e
      | Inr cfg \<Rightarrow>
     (case or_else (has_completed rec)
             (or_else (group_mismatch group_filter cfg) (ssid_mismatch ssid cfg)) of
        Inl e \<Rightarrow> Inl e
      | Inr True \<Rightarrow> Inr None
      | Inr False \<Rightarrow>
     (case mark_in_progress now rec of
        Inl e \<Rightarrow> Inl e
      | Inr rec' \<Rightarrow> Inr (Some rec')))))"

text \<open>
  The generator is consumed by the \<^verbatim>\<open>for\<close> loop of \<^verbatim>\<open>provision_native\<close> or
  \<^verbatim>\<open>provision_ddwrt\<close>. The loop body works on the yielded record, which is the queue's own
  entry, and then lets the generator go on, leaves the loop, returns, or raises
  (\<^verbatim>\<open>sys.exit\<close> raises \<^verbatim>\<open>SystemExit\<close>). A body that does not come back has no value.
\<close>

datatype ctl = Next | Break | Return | Raised error

type_synonym body = "nat \<Rightarrow> json \<Rightarrow> (json \<times> ctl) option"

text \<open>
  A pass over the queue from position \<open>i\<close>: the queue afterwards, the positions yielded,
  and how the loop ended (\<open>Next\<close>: the queue was walked to its end). \<open>clock i\<close> is the
  time read for the entry at position \<open>i\<close>.
\<close>

fun queue_pass ::
  "string option \<Rightarrow> string option \<Rightarrow> (nat \<Rightarrow> real) \<Rightarrow> body \<Rightarrow> nat \<Rightarrow> json list
     \<Rightarrow> (json list \<times> nat list \<times> ctl) option" where
  "queue_pass group_filter ssid clock body i [] = Some ([], [], Next)"
| "queue_pass group_filter ssid clock body i (rec # rest) =
     (case queue_step group_filter ssid (clock i) rec of
        Inl e \<Rightarrow> Some (rec # rest, [], Raised e)
      | Inr None \<Rightarrow>
          (case queue_pass group_filter ssid clock body (Suc i) rest of
             None \<Rightarrow> None
           | Some (rest', yielded, c) \<Rightarrow> Some (rec # rest', yielded, c))
      | Inr (Some rec1) \<Rightarrow>
          (case body i rec1 of
             None \<Rightarrow> None
           | Some (rec2, Next) \<Rightarrow>
               (case queue_pass group_filter ssid clock body (Suc i) rest of
                  None \<Rightarrow> None
                | Some (rest', yielded, c) \<Rightarrow> Some (rec2 # rest', i # yielded, c))
           | Some (rec2, c) \<Rightarrow> Some (rec2 # rest, [i], c)))"

definition read_device_queue ::
  "string option \<Rightarrow> string option \<Rightarrow> (nat \<Rightarrow> real) \<Rightarrow> body \<Rightarrow> json list
     \<Rightarrow> (json list \<times> nat list \<times> ctl) option" where
  "read_device_queue group_filter ssid clock body device_queue =
     queue_pass group_filter ssid clock body 0 device_queue"

text \<open>A queue entry is complete when its \<^verbatim>\<open>ConfigStatus\<close> has a \<^verbatim>\<open>CompletedTime\<close>.\<close>

fun completed :: "json \<Rightarrow> bool" where
  "completed (JObj d) =
     (case map_of d ''ConfigStatus'' of
        Some (JObj cs) \<Rightarrow> map_of cs ''CompletedTime'' \<noteq> None
      | _ \<Rightarrow> False)"
| "completed _ = False"

section \<open>Properties of the queue pass\<close>

lemma has_completed_completed: "completed rec \<Longrightarrow> has_completed rec = Inr True"
  by (cases rec) (auto simp: has_completed_def split: option.splits json.splits)

lemma queue_step_completed:
  assumes "completed rec"
  shows "queue_step group_filter ssid now rec = Inr None"
proof -
  obtain d where d: "rec = JObj d" using assms by (cases rec) auto
  show ?thesis
  proof (cases "map_of d ''ConfigInput''")
    case None
    with d show ?thesis by (simp add: queue_step_def)
  next
    case (Some cfg)
    with d has_completed_completed [OF assms] show ?thesis
      by (simp add: queue_step_def or_else_def)
  qed
qed

lemma queue_pass_props:
  "queue_pass group_filter ssid clock body i queue = Some (queue', yielded, c) \<Longrightarrow>
     length queue' = length queue
   \<and> (\<forall>j < length queue. completed (queue ! j) \<longrightarrow> queue' ! j = queue ! j \<and> i + j \<notin> set yielded)
   \<and> (\<forall>y \<in> set yielded. i \<le> y \<and> y < i + length queue \<and> \<not> completed (queue ! (y - i)))"
proof (induction queue arbitrary: i queue' yielded c)
  case Nil
  then show ?case by simp
next
  case (Cons rec rest)
  let ?step = "queue_step group_filter ssid (clock i) rec"
  show ?case
  proof (cases ?step)
    case (Inl e)
    with Cons.prems have "queue' = rec # rest" "yielded = []" by simp_all
    then show ?thesis by simp
  next
    case (Inr r)
    show ?thesis
    proof (cases r)
      case None
      with Inr Cons.prems obtain rest' where
        rec: "queue_pass group_filter ssid clock body (Suc i) rest = Some (rest', yielded, c)"
        and q: "queue' = rec # rest'"
        by (auto split: option.splits)
      note IH = Cons.IH [OF rec]
      show ?thesis
      proof (intro conjI allI impI ballI)
        show "length queue' = length (rec # rest)" using IH q by simp
      next
        fix j assume "j < length (rec # rest)" "completed ((rec # rest) ! j)"
        then show "queue' ! j = (rec # rest) ! j" using IH q by (cases j) auto
      next
        fix j assume "j < length (rec # rest)" "completed ((rec # rest) ! j)"
        then show "i + j \<notin> set yielded" using IH by (cases j) force+
      next
        fix y assume y: "y \<in> set yielded"
        with IH have b: "Suc i \<le> y" "y < Suc i + length rest" "\<not> completed (rest ! (y - Suc i))"
          by blast+
        show "i \<le> y" using b by simp
        show "y < i + length (rec # rest)" using b by simp
        have "y - i = Suc (y - Suc i)" using b by simp
        then show "\<not> completed ((rec # rest) ! (y - i))" using b by simp
      qed
    next
      case (Some rec1)
      have fresh: "\<not> completed rec"
        using queue_step_completed [of rec group_filter ssid "clock i"] Inr Some by auto
      obtain rec2 c1 where b: "body i rec1 = Some (rec2, c1)"
        using Inr Some Cons.prems by (cases "body i rec1") auto
      show ?thesis
      proof (cases "c1 = Next")
        case True
        with Inr Some b Cons.prems obtain rest' ys where
          rec: "queue_pass group_filter ssid clock body (Suc i) rest = Some (rest', ys, c)"
          and q: "queue' = rec2 # rest'" and yl: "yielded = i # ys"
          by (auto split: option.splits)
        note IH = Cons.IH [OF rec]
        show ?thesis
        proof (intro conjI allI impI ballI)
          show "length queue' = length (rec # rest)" using IH q by simp
        next
          fix j assume "j < length (rec # rest)" "completed ((rec # rest) ! j)"
          then show "queue' ! j = (rec # rest) ! j" using IH q fresh by (cases j) auto
        next
          fix j assume j: "j < length (rec # rest)" "completed ((rec # rest) ! j)"
          then obtain j' where j': "j = Suc j'" using fresh by (cases j) auto
          with j IH have "Suc i + j' \<notin> set ys" by auto
          then show "i + j \<notin> set yielded" using yl j' by simp
        next
          fix y assume y: "y \<in> set yielded"
          show "i \<le> y" using y yl IH by auto
          show "y < i + length (rec # rest)" using y yl IH by auto
          show "\<not> completed ((rec # rest) ! (y - i))"
          proof (cases "y = i")
            case True
            then show ?thesis using fresh by simp
          next
            case False
            with y yl have "y \<in> set ys" by simp
            with IH have b: "Suc i \<le> y" "\<not> completed (rest ! (y - Suc i))" by blast+
            have "y - i = Suc (y - Suc i)" using b by simp
            then show ?thesis using b by simp
          qed
        qed
      next
        case False
        with Inr Some b Cons.prems have q: "queue' = rec2 # rest" and yl: "yielded = [i]"
          by (cases c1; simp)+
        show ?thesis
        proof (intro conjI allI impI ballI)
          show "length queue' = length (rec # rest)" using q by simp
        next
          fix j assume "j < length (rec # rest)" "completed ((rec # rest) ! j)"
          then show "queue' ! j = (rec # rest) ! j" using q fresh by (cases j) auto
        next
          fix j assume j: "j < length (rec # rest)" "completed ((rec # rest) ! j)"
          then show "i + j \<notin> set yielded" using yl fresh by (cases j) auto
        next
          fix y assume y: "y \<in> set yielded"
          then have "y = i" using yl by simp
          then show "i \<le> y" "y < i + length (rec # rest)" "\<not> completed ((rec # rest) ! (y - i))"
            using fresh by simp_all
        qed
      qed
    qed
  qed
qed

text \<open>
  C1. Whatever the loop body does with the records it is given, and wherever it stops, a
  provision-list pass over a queue yields only entries that are not complete; an entry that
  is complete at the start of the pass is not yielded, and it is the same in the queue
  after the pass. This holds for every queue, so also for the queue a restarted run reads
  back after an interrupted one.
\<close>

theorem queue_pass_skips_completed:
  assumes "read_device_queue group_filter ssid clock body device_queue = Some (queue', yielded, c)"
  shows "length queue' = length device_queue
       \<and> (\<forall>n < length device_queue. completed (device_queue ! n) \<longrightarrow>
             n \<notin> set yielded \<and> queue' ! n = device_queue ! n)
       \<and> (\<forall>y \<in> set yielded. y < length device_queue \<and> \<not> completed (device_queue ! y))"
  using queue_pass_props [of group_filter ssid clock body 0 device_queue queue' yielded c] assms
  by (simp add: read_device_queue_def)

text \<open>
  A queue of three entries, the second complete; a body that stamps a
  \<^verbatim>\<open>CompletedTime\<close> on what it gets.
\<close>

definition entry_pending :: "string \<Rightarrow> json" where
  "entry_pending s = JObj [(''ConfigInput'', JObj [(''SSID'', JStr s)]),
                           (''ConfigStatus'', JObj [(''InsertTime'', JFloat 1)])]"

definition entry_marked :: "string \<Rightarrow> json" where
  "entry_marked s = JObj [(''ConfigInput'', JObj [(''SSID'', JStr s)]),
                          (''ConfigStatus'', JObj [(''InsertTime'', JFloat 1),
                                                   (''InProgressTime'', JFloat 5)])]"

definition entry_done :: "string \<Rightarrow> json" where
  "entry_done s = JObj [(''ConfigInput'', JObj [(''SSID'', JStr s)]),
                        (''ConfigStatus'', JObj [(''InsertTime'', JFloat 1),
                                                 (''InProgressTime'', JFloat 5),
                                                 (''CompletedTime'', JFloat 9)])]"

definition stamp_body :: body where
  "stamp_body i rec =
     (case py_getitem rec ''ConfigStatus'' of
        Inl e \<Rightarrow> Some (rec, Raised e)
      | Inr cs \<Rightarrow>
          (case py_setitem cs ''CompletedTime'' (JFloat 9) of
             Inl e \<Rightarrow> Some (rec, Raised e)
           | Inr cs' \<Rightarrow>
               (case py_setitem rec ''ConfigStatus'' cs' of
                  Inl e \<Rightarrow> Some (rec, Raised e)
                | Inr rec' \<Rightarrow> Some (rec', Next))))"

lemma queue_step_pending:
  "queue_step None None 5 (entry_pending s) = Inr (Some (entry_marked s))"
  by (simp add: queue_step_def entry_pending_def entry_marked_def has_completed_def or_else_def
        group_mismatch_def ssid_mismatch_def mark_in_progress_def)

lemma queue_step_done: "queue_step None None 5 (entry_done s) = Inr None"
  by (rule queue_step_completed) (simp add: entry_done_def)

lemma stamp_body_marked: "stamp_body i (entry_marked s) = Some (entry_done s, Next)"
  by (simp add: stamp_body_def entry_marked_def entry_done_def)

lemma example_pass:
  "read_device_queue None None (\<lambda>_. 5) stamp_body
      [entry_pending ''net'', entry_done ''net'', entry_pending ''net'']
     = Some ([entry_done ''net'', entry_done ''net'', entry_done ''net''], [0, 2], Next)"
  by (simp add: read_device_queue_def queue_step_pending queue_step_done stamp_body_marked)

lemma example_second_pass:
  "read_device_queue None None (\<lambda>_. 5) stamp_body
      [entry_done ''net'', entry_done ''net'', entry_done ''net'']
     = Some ([entry_done ''net'', entry_done ''net'', entry_done ''net''], [], Next)"
  by (simp add: read_device_queue_def queue_step_done)

theorem queue_pass_skips_completed_witness:
  "completed (entry_done ''net'') \<and> \<not> completed (entry_pending ''net'')
   \<and> 1 \<notin> set [0, 2::nat]
   \<and> [entry_done ''net'', entry_done ''net'', entry_done ''net''] ! 1 = entry_done ''net''"
  using queue_pass_skips_completed [OF example_pass] queue_pass_skips_completed [OF example_second_pass]
  by (simp add: entry_done_def entry_pending_def)

section \<open>Sending credentials: \<^verbatim>\<open>provision_device\<close>\<close>

text \<open>
  One try to push the credentials: the device's answer has no \<^verbatim>\<open>error\<close> (only then is
  \<^verbatim>\<open>got_one\<close> set), it has one, or something in the \<^verbatim>\<open>try\<close> block raised (the request,
  the parsing of the answer, or the printing of it); the bare \<^verbatim>\<open>except\<close> catches that.
\<close>

datatype push_result = Acknowledged | ErrorReply | PushRaised

text \<open>The inner loop \<^verbatim>\<open>for j in range(tries)\<close>, with \<^verbatim>\<open>got_one\<close> as its state.\<close>

fun run_tries :: "(nat \<Rightarrow> push_result) \<Rightarrow> nat list \<Rightarrow> bool \<Rightarrow> bool" where
  "run_tries attempt [] got_one = got_one"
| "run_tries attempt (j # js) got_one = run_tries attempt js (got_one \<or> attempt j = Acknowledged)"

text \<open>
  The outer loop \<^verbatim>\<open>for i in range(5)\<close>: \<^verbatim>\<open>if got_one: return True\<close> after each pass,
  \<^verbatim>\<open>return False\<close> after the last.
\<close>

fun run_passes :: "(nat \<Rightarrow> nat \<Rightarrow> push_result) \<Rightarrow> nat \<Rightarrow> nat list \<Rightarrow> bool" where
  "run_passes attempt tries [] = False"
| "run_passes attempt tries (i # is) =
     (if run_tries (attempt i) [0..<tries] False then True else run_passes attempt tries is)"

text \<open>
  The static addressing read from \<^verbatim>\<open>cfg\<close> before the loops:
  \<^verbatim>\<open>cfg[ 'StaticIP' ] if 'StaticIP' in cfg and args.operation == 'provision-list' else None\<close>,
  and the same for \<^verbatim>\<open>NetMask\<close> and \<^verbatim>\<open>Gateway\<close>, both under the test for \<^verbatim>\<open>StaticIP\<close>.
\<close>

definition static_addressing :: "string \<Rightarrow> json \<Rightarrow> error + json \<times> json \<times> json" where
  "static_addressing operation cfg =
     (case py_in ''StaticIP'' cfg of
        Inl e \<Rightarrow> Inl e
      | Inr present \<Rightarrow>
          if present \<and> operation = ''provision-list'' then
            (case py_getitem cfg ''StaticIP'' of
               Inl e \<Rightarrow> Inl e
             | Inr static_ip \<Rightarrow>
            (case py_getitem cfg ''NetMask'' of
               Inl e \<Rightarrow> Inl e
             | Inr netmask \<Rightarrow>
            (case py_getitem cfg ''Gateway'' of
               Inl e \<Rightarrow> Inl e
             | Inr gateway \<Rightarrow> Inr (static_ip, netmask, gateway))))
          else Inr (JNull, JNull, JNull))"

definition provision_device ::
  "string \<Rightarrow> json \<Rightarrow> (nat \<Rightarrow> nat \<Rightarrow> push_result) \<Rightarrow> nat \<Rightarrow> error + bool" where
  "provision_device operation cfg attempt tries =
     (case static_addressing operation cfg of
        Inl e \<Rightarrow> Inl e
      | Inr _ \<Rightarrow> Inr (run_passes attempt tries [0..<5]))"

section \<open>The loop bodies of \<^verbatim>\<open>provision_native\<close> and \<^verbatim>\<open>provision_ddwrt\<close>\<close>

text \<open>\<^verbatim>\<open>rec[ 'ConfigStatus' ][ k ] = v\<close>\<close>

definition set_status_field :: "json \<Rightarrow> string \<Rightarrow> json \<Rightarrow> error + json" where
  "set_status_field rec k v =
     (case py_getitem rec ''ConfigStatus'' of
        Inl e \<Rightarrow> Inl e
      | Inr cs \<Rightarrow>
          (case py_setitem cs k v of
             Inl e \<Rightarrow> Inl e
           | Inr cs' \<Rightarrow> py_setitem rec ''ConfigStatus'' cs'))"

text \<open>
  \<^verbatim>\<open>check_status\<close> answers \<^verbatim>\<open>'Quit'\<close>, \<^verbatim>\<open>'Fail'\<close> or the status it read, after
  \<^verbatim>\<open>finish_up_device\<close> has written into the record; or something in it raises.
\<close>

datatype check_result = Quit | Fail | Confirmed | CheckRaised error

text \<open>The options of the command line that the loops read.\<close>

record args =
  operation :: string
  wait_time :: int
  two_routers :: bool

text \<open>
  What the network does while one queue entry is handled by \<^verbatim>\<open>provision_native\<close>: the
  factory network found by \<^verbatim>\<open>wifi_connect\<close>, whether the device answers \<^verbatim>\<open>get_status\<close>
  there, whether the queue file can be written (\<^verbatim>\<open>write_json_file\<close> exits otherwise), the
  tries of \<^verbatim>\<open>provision_device\<close>, \<^verbatim>\<open>wifi_reconnect\<close>, the clock, \<^verbatim>\<open>check_status\<close> and
  \<^verbatim>\<open>disable_ap_mode\<close>.
\<close>

record native_env =
  found :: "string option"
  factory_status :: bool
  queue_writable :: bool
  push_attempt :: "nat \<Rightarrow> nat \<Rightarrow> push_result"
  reconnect :: bool
  completed_at :: real
  check_status :: "json \<Rightarrow> json \<times> check_result"
  disable_ap :: "error option"

definition write_error :: error where
  "write_error = SystemExit ''write_json_file''"

text \<open>The steps after the credentials were accepted and the station is back on its network.\<close>

definition native_verify :: "args \<Rightarrow> native_env \<Rightarrow> json \<Rightarrow> json \<times> ctl" where
  "native_verify a e rec1 =
     (case set_status_field rec1 ''CompletedTime'' (JFloat (completed_at e)) of
        Inl er \<Rightarrow> (rec1, Raised er)
      | Inr rec2 \<Rightarrow>
          if operation a \<noteq> ''config-test'' \<and> \<not> queue_writable e then (rec2, Raised write_error)
          else
            (case check_status e rec2 of
               (rec3, Quit) \<Rightarrow> (rec3, Raised NameError)
             | (rec3, Fail) \<Rightarrow> (rec3, Break)
             | (rec3, CheckRaised er) \<Rightarrow> (rec3, Raised er)
             | (rec3, Confirmed) \<Rightarrow>
                 (case disable_ap e of
                    Some er \<Rightarrow> (rec3, Raised er)
                  | None \<Rightarrow> (rec3, Next))))"

text \<open>
  The body of \<^verbatim>\<open>for rec in read_device_queue( device_queue, args, ssid )\<close> in
  \<^verbatim>\<open>provision_native\<close>. \<^verbatim>\<open>if not stat: sys.exit(0)\<close> comes after the reconnection;
  \<^verbatim>\<open>return false\<close> names an undefined \<^verbatim>\<open>false\<close>.
\<close>

definition provision_native_body :: "args \<Rightarrow> (nat \<Rightarrow> native_env) \<Rightarrow> body" where
  "provision_native_body a env i rec =
     (let e = env i in
      case py_getitem rec ''ConfigInput'' of
        Inl er \<Rightarrow> Some (rec, Raised er)
      | Inr cfg \<Rightarrow>
     (case found e of
        None \<Rightarrow> if wait_time a = 0 then Some (rec, Break) else Some (rec, Next)
      | Some factory_ssid \<Rightarrow>
          if \<not> factory_status e then Some (rec, Break)
          else
     (case set_status_field rec ''factory_ssid'' (JStr factory_ssid) of
        Inl er \<Rightarrow> Some (rec, Raised er)
      | Inr rec1 \<Rightarrow>
          if \<not> queue_writable e then Some (rec1, Raised write_error)
          else
     (case provision_device (operation a) cfg (push_attempt e) 3 of
        Inl er \<Rightarrow> Some (rec1, Raised er)
      | Inr stat \<Rightarrow>
          if \<not> reconnect e then Some (rec1, Break)
          else if \<not> stat then Some (rec1, Raised (SystemExit []))
          else Some (native_verify a e rec1)))))"

text \<open>
  With routers, \<^verbatim>\<open>provision_ddwrt\<close> first surveys until a factory network shows up
  (\<^verbatim>\<open>ddwrt_discover\<close> may exit); the surveys are what the router reports, so the wait is
  a recursion on their list, without a value when no survey finds a device.
\<close>

fun ddwrt_discovery :: "(error + string list) list \<Rightarrow> (error + string) option" where
  "ddwrt_discovery [] = None"
| "ddwrt_discovery (Inl e # surveys) = Some (Inl e)"
| "ddwrt_discovery (Inr [] # surveys) = ddwrt_discovery surveys"
| "ddwrt_discovery (Inr (ssid0 # _) # surveys) = Some (Inr ssid0)"

record ddwrt_env =
  surveys :: "(error + string list) list"
  in_progress_at :: real
  dd_queue_writable :: bool
  router_programming :: "nat \<Rightarrow> error option"
  forwarded_status :: "nat \<Rightarrow> bool"
  dd_attempt :: "nat \<Rightarrow> nat \<Rightarrow> nat \<Rightarrow> push_result"
  back_to_ap :: "error option"
  dd_check_status :: "json \<Rightarrow> json \<times> check_result"
  dd_completed_at :: real

text \<open>
  \<^verbatim>\<open>cfg[ 'SSID' ]\<close> and \<^verbatim>\<open>cfg[ 'Password' ]\<close>, the arguments of
  \<^verbatim>\<open>ddwrt_set_ap_mode\<close> and of \<^verbatim>\<open>provision_device\<close> in \<^verbatim>\<open>provision_ddwrt\<close>, read in this
  order before the call.
\<close>

definition cfg_credentials :: "json \<Rightarrow> error + json \<times> json" where
  "cfg_credentials cfg =
     (case py_getitem cfg ''SSID'' of
        Inl er \<Rightarrow> Inl er
      | Inr ssid \<Rightarrow>
          (case py_getitem cfg ''Password'' of
             Inl er \<Rightarrow> Inl er
           | Inr pw \<Rightarrow> Inr (ssid, pw)))"

text \<open>
  With two routers each attempt begins with
  \<^verbatim>\<open>ddwrt_set_ap_mode( ap_node, cfg[ 'SSID' ], cfg[ 'Password' ] )\<close>: what reading its
  arguments may raise.
\<close>

definition ap_arguments :: "args \<Rightarrow> json \<Rightarrow> error option" where
  "ap_arguments a cfg =
     (if two_routers a then (case cfg_credentials cfg of Inl er \<Rightarrow> Some er | Inr _ \<Rightarrow> None)
      else None)"

text \<open>
  The inner \<^verbatim>\<open>while True\<close> of \<^verbatim>\<open>provision_ddwrt\<close>. With two routers the access point
  is programmed first, with \<^verbatim>\<open>cfg[ 'SSID' ]\<close> and \<^verbatim>\<open>cfg[ 'Password' ]\<close>. Then the station
  and the loopback are programmed (any of this may raise), the device is asked for its
  status through the forwarded address (the run exits when it does not answer),
  \<^verbatim>\<open>cfg[ 'SSID' ]\<close> and \<^verbatim>\<open>cfg[ 'Password' ]\<close> are read, and \<^verbatim>\<open>provision_device\<close> is
  called, with one try per pass for a single router and three for two; \<^verbatim>\<open>break\<close> when
  it succeeded, \<^verbatim>\<open>sys.exit\<close> at the tenth failure, else once more.
\<close>

function ddwrt_attempts :: "args \<Rightarrow> json \<Rightarrow> ddwrt_env \<Rightarrow> nat \<Rightarrow> error + unit" where
  "ddwrt_attempts a cfg e attempts =
     (case ap_arguments a cfg of
        Some er \<Rightarrow> Inl er
      | None \<Rightarrow>
     (case router_programming e (attempts + 1) of
        Some er \<Rightarrow> Inl er
      | None \<Rightarrow>
          if \<not> forwarded_status e (attempts + 1) then Inl (SystemExit [])
          else
     (case cfg_credentials cfg of
        Inl er \<Rightarrow> Inl er
      | Inr _ \<Rightarrow>
     (case provision_device (operation a) cfg (dd_attempt e (attempts + 1))
             (if two_routers a then 3 else 1) of
        Inl er \<Rightarrow> Inl er
      | Inr True \<Rightarrow> Inr ()
      | Inr False \<Rightarrow>
          if attempts + 1 \<ge> 10 then Inl (SystemExit [])
          else ddwrt_attempts a cfg e (attempts + 1)))))"
  by pat_completeness auto
termination
  by (relation "measure (\<lambda>(a, cfg, e, attempts). 10 - attempts)") auto

declare ddwrt_attempts.simps [simp del]

definition ddwrt_verify :: "args \<Rightarrow> ddwrt_env \<Rightarrow> json \<Rightarrow> json \<times> ctl" where
  "ddwrt_verify a e rec1 =
     (case (if two_routers a then None else back_to_ap e) of
        Some er \<Rightarrow> (rec1, Raised er)
      | None \<Rightarrow>
          (case dd_check_status e rec1 of
             (rec2, Quit) \<Rightarrow> (rec2, Return)
           | (rec2, Fail) \<Rightarrow> (rec2, Raised (SystemExit []))
           | (rec2, CheckRaised er) \<Rightarrow> (rec2, Raised er)
           | (rec2, Confirmed) \<Rightarrow>
               (case set_status_field rec2 ''CompletedTime'' (JFloat (dd_completed_at e)) of
                  Inl er \<Rightarrow> (rec2, Raised er)
                | Inr rec3 \<Rightarrow>
                    if \<not> dd_queue_writable e then (rec3, Raised write_error)
                    else (rec3, Next))))"

text \<open>
  The body of \<^verbatim>\<open>for rec in read_device_queue( device_queue, args, None )\<close> in
  \<^verbatim>\<open>provision_ddwrt\<close>.
\<close>

definition provision_ddwrt_body :: "args \<Rightarrow> (nat \<Rightarrow> ddwrt_env) \<Rightarrow> body" where
  "provision_ddwrt_body a env i rec =
     (let e = env i in
      case py_getitem rec ''ConfigInput'' of
        Inl er \<Rightarrow> Some (rec, Raised er)
      | Inr cfg \<Rightarrow>
     (case ddwrt_discovery (surveys e) of
        None \<Rightarrow> None
      | Some (Inl er) \<Rightarrow> Some (rec, Raised er)
      | Some (Inr ssid0) \<Rightarrow>
     (case set_status_field rec ''factory_ssid'' (JStr ssid0) of
        Inl er \<Rightarrow> Some (rec, Raised er)
      | Inr rec0 \<Rightarrow>
     (case set_status_field rec0 ''InProgressTime'' (JFloat (in_progress_at e)) of
        Inl er \<Rightarrow> Some (rec0, Raised er)
      | Inr rec1 \<Rightarrow>
          if \<not> dd_queue_writable e then Some (rec1, Raised write_error)
          else
     (case ddwrt_attempts a cfg e 0 of
        Inl er \<Rightarrow> Some (rec1, Raised er)
      | Inr _ \<Rightarrow> Some (ddwrt_verify a e rec1))))))"

text \<open>No try of a call of \<^verbatim>\<open>provision_device\<close> is acknowledged.\<close>

definition never_acknowledged :: "(nat \<Rightarrow> nat \<Rightarrow> push_result) \<Rightarrow> nat \<Rightarrow> bool" where
  "never_acknowledged attempt tries =
     (\<forall>i < 5. \<forall>j < tries. attempt i j \<noteq> Acknowledged)"

section \<open>Properties of the provisioning loops\<close>

lemma run_tries_iff:
  "run_tries attempt js got \<longleftrightarrow> got \<or> (\<exists>j \<in> set js. attempt j = Acknowledged)"
  by (induction js arbitrary: got) auto

lemma run_passes_iff:
  "run_passes attempt tries ps \<longleftrightarrow> (\<exists>i \<in> set ps. \<exists>j < tries. attempt i j = Acknowledged)"
  by (induction ps) (auto simp: run_tries_iff)

lemma provision_device_never:
  assumes "never_acknowledged attempt tries"
  shows "provision_device op cfg attempt tries \<noteq> Inr True"
proof -
  have "\<not> run_passes attempt tries [0..<5]"
    using assms by (auto simp: run_passes_iff never_acknowledged_def)
  then show ?thesis
    by (cases "static_addressing op cfg") (simp_all add: provision_device_def)
qed

lemma native_body_stops:
  assumes "found (env i) \<noteq> None" and "never_acknowledged (push_attempt (env i)) 3"
    and "provision_native_body a env i rec = Some (rec', c)"
  shows "c = Break \<or> (\<exists>er. c = Raised er)"
proof -
  let ?e = "env i"
  obtain f where f: "found ?e = Some f" using assms(1) by auto
  show ?thesis
  proof (cases "py_getitem rec ''ConfigInput''")
    case (Inl er)
    with assms(3) show ?thesis by (auto simp: provision_native_body_def)
  next
    case cfg: (Inr cfg)
    show ?thesis
    proof (cases "factory_status ?e")
      case False
      with cfg f assms(3) show ?thesis by (auto simp: provision_native_body_def)
    next
      case st: True
      show ?thesis
      proof (cases "set_status_field rec ''factory_ssid'' (JStr f)")
        case (Inl er)
        with cfg f st assms(3) show ?thesis by (auto simp: provision_native_body_def)
      next
        case r1: (Inr rec1)
        show ?thesis
        proof (cases "queue_writable ?e")
          case False
          with cfg f st r1 assms(3) show ?thesis by (auto simp: provision_native_body_def)
        next
          case wr: True
          show ?thesis
          proof (cases "provision_device (operation a) cfg (push_attempt ?e) 3")
            case (Inl er)
            with cfg f st r1 wr assms(3) show ?thesis by (auto simp: provision_native_body_def)
          next
            case (Inr stat)
            with provision_device_never [OF assms(2), of "operation a" cfg]
            have "\<not> stat" by auto
            with Inr cfg f st r1 wr assms(3) show ?thesis
              by (cases "reconnect ?e") (auto simp: provision_native_body_def)
          qed
        qed
      qed
    qed
  qed
qed

lemma ddwrt_attempts_unfold:
  assumes "provision_device (operation a) cfg (dd_attempt e (attempts + 1))
             (if two_routers a then 3 else 1) = p"
  shows "ddwrt_attempts a cfg e attempts =
     (case ap_arguments a cfg of
        Some er \<Rightarrow> Inl er
      | None \<Rightarrow>
     (case router_programming e (attempts + 1) of
        Some er \<Rightarrow> Inl er
      | None \<Rightarrow>
          if \<not> forwarded_status e (attempts + 1) then Inl (SystemExit [])
          else
     (case cfg_credentials cfg of
        Inl er \<Rightarrow> Inl er
      | Inr _ \<Rightarrow>
     (case p of
        Inl er \<Rightarrow> Inl er
      | Inr True \<Rightarrow> Inr ()
      | Inr False \<Rightarrow>
          if attempts + 1 \<ge> 10 then Inl (SystemExit [])
          else ddwrt_attempts a cfg e (attempts + 1)))))"
  unfolding assms [symmetric] by (rule ddwrt_attempts.simps)

lemma ddwrt_attempts_never_from:
  assumes "\<And>n. never_acknowledged (dd_attempt e n) (if two_routers a then 3 else 1)"
  shows "10 - attempts \<le> m \<Longrightarrow> ddwrt_attempts a cfg e attempts \<noteq> Inr ()"
proof (induction m arbitrary: attempts)
  case 0
  obtain p where p: "provision_device (operation a) cfg (dd_attempt e (attempts + 1))
              (if two_routers a then 3 else 1) = p" by simp
  have pd: "p \<noteq> Inr True"
    using provision_device_never [OF assms] unfolding p [symmetric] .
  from 0 have "10 \<le> attempts + 1" by simp
  with pd show ?case
    unfolding ddwrt_attempts_unfold [OF p]
    by (auto split: sum.splits option.splits bool.splits)
next
  case (Suc m)
  obtain p where p: "provision_device (operation a) cfg (dd_attempt e (attempts + 1))
              (if two_routers a then 3 else 1) = p" by simp
  have pd: "p \<noteq> Inr True"
    using provision_device_never [OF assms] unfolding p [symmetric] .
  have "ddwrt_attempts a cfg e (attempts + 1) \<noteq> Inr ()"
    using Suc.IH [of "attempts + 1"] Suc.prems by simp
  with pd show ?case
    unfolding ddwrt_attempts_unfold [OF p]
    by (auto split: sum.splits option.splits bool.splits)
qed

lemma ddwrt_attempts_never:
  "(\<And>n. never_acknowledged (dd_attempt e n) (if two_routers a then 3 else 1)) \<Longrightarrow>
     ddwrt_attempts a cfg e attempts \<noteq> Inr ()"
  by (rule ddwrt_attempts_never_from [of e a attempts "10 - attempts"]) simp_all

lemma ddwrt_body_stops:
  assumes "\<And>n. never_acknowledged (dd_attempt (env i) n) (if two_routers a then 3 else 1)"
    and "provision_ddwrt_body a env i rec = Some (rec', c)"
  shows "\<exists>er. c = Raised er"
proof -
  let ?e = "env i"
  show ?thesis
  proof (cases "py_getitem rec ''ConfigInput''")
    case (Inl er)
    with assms(2) show ?thesis by (auto simp: provision_ddwrt_body_def)
  next
    case cfg: (Inr cfg)
    have att: "ddwrt_attempts a cfg ?e 0 \<noteq> Inr ()"
      using ddwrt_attempts_never [of ?e a cfg 0] assms(1) by blast
    show ?thesis
    proof (cases "ddwrt_attempts a cfg ?e 0")
      case (Inl er)
      with cfg assms(2) show ?thesis
        by (auto simp: provision_ddwrt_body_def Let_def split: option.splits sum.splits if_splits)
    next
      case (Inr u)
      with att show ?thesis by simp
    qed
  qed
qed

lemma queue_pass_stops:
  "queue_pass group_filter ssid clock body k queue = Some (queue', yielded, c) \<Longrightarrow>
   i \<in> set yielded \<Longrightarrow>
   (\<And>r r' c'. body i r = Some (r', c') \<Longrightarrow> c' \<noteq> Next) \<Longrightarrow>
     (\<exists>r r'. body i r = Some (r', c)) \<and> (\<forall>y \<in> set yielded. y \<le> i)"
proof (induction queue arbitrary: k queue' yielded c)
  case Nil
  then show ?case by simp
next
  case (Cons rec rest)
  let ?step = "queue_step group_filter ssid (clock k) rec"
  show ?case
  proof (cases ?step)
    case (Inl e)
    with Cons.prems(1,2) show ?thesis by simp
  next
    case (Inr r)
    show ?thesis
    proof (cases r)
      case None
      with Inr Cons.prems(1) obtain rest' where
        "queue_pass group_filter ssid clock body (Suc k) rest = Some (rest', yielded, c)"
        by (auto split: option.splits)
      then show ?thesis using Cons.IH Cons.prems(2,3) by blast
    next
      case (Some rec1)
      obtain rec2 c1 where b: "body k rec1 = Some (rec2, c1)"
        using Inr Some Cons.prems(1) by (cases "body k rec1") auto
      show ?thesis
      proof (cases "c1 = Next")
        case True
        with Inr Some b Cons.prems(1) obtain rest' ys where
          rec: "queue_pass group_filter ssid clock body (Suc k) rest = Some (rest', ys, c)"
          and yl: "yielded = k # ys"
          by (auto split: option.splits)
        have "k \<noteq> i" using b True Cons.prems(3) by blast
        with yl Cons.prems(2) have i: "i \<in> set ys" by simp
        have IH: "(\<exists>r r'. body i r = Some (r', c)) \<and> (\<forall>y \<in> set ys. y \<le> i)"
          using Cons.IH [OF rec i] Cons.prems(3) by blast
        have "Suc k \<le> i" using queue_pass_props [OF rec] i by blast
        with IH yl show ?thesis by auto
      next
        case False
        with Inr Some b Cons.prems(1) have "yielded = [k]" "c = c1"
          by (cases c1; simp)+
        with b Cons.prems(2) show ?thesis by auto
      qed
    qed
  qed
qed

text \<open>
  C7. A queue entry was yielded, a factory device was found for it, and no try of the
  credential push was acknowledged (in \<^verbatim>\<open>provision_ddwrt\<close>: in none of the attempts).
  Then the loop ends at this entry: without routers by \<^verbatim>\<open>break\<close> or by an exception
  (\<^verbatim>\<open>sys.exit(0)\<close> when the station could reconnect), with routers by an exception
  (\<^verbatim>\<open>sys.exit()\<close> after the tenth attempt, or before that what an attempt raised:
  \<^verbatim>\<open>KeyError\<close> for an entry without \<^verbatim>\<open>SSID\<close> or \<^verbatim>\<open>Password\<close>, the exit when the device
  does not answer through the router); no later entry of the queue is yielded.
\<close>

theorem credential_failure_ends_run:
  "(read_device_queue group_filter ssid clock (provision_native_body a env) device_queue
       = Some (queue', yielded, c)
     \<and> i \<in> set yielded \<and> found (env i) \<noteq> None \<and> never_acknowledged (push_attempt (env i)) 3
     \<longrightarrow> (c = Break \<or> (\<exists>er. c = Raised er)) \<and> (\<forall>y \<in> set yielded. y \<le> i))
   \<and> (read_device_queue group_filter None clock (provision_ddwrt_body a denv) device_queue
       = Some (queue', yielded, c)
     \<and> i \<in> set yielded
     \<and> (\<forall>n. never_acknowledged (dd_attempt (denv i) n) (if two_routers a then 3 else 1))
     \<longrightarrow> (\<exists>er. c = Raised er) \<and> (\<forall>y \<in> set yielded. y \<le> i))"
proof (intro conjI impI; elim conjE)
  assume pass: "read_device_queue group_filter ssid clock (provision_native_body a env) device_queue
       = Some (queue', yielded, c)"
    and i: "i \<in> set yielded" and f: "found (env i) \<noteq> None"
    and n: "never_acknowledged (push_attempt (env i)) 3"
  have body: "\<And>r r' c'. provision_native_body a env i r = Some (r', c') \<Longrightarrow>
                 c' = Break \<or> (\<exists>er. c' = Raised er)"
    using native_body_stops [of env i a] f n by blast
  then have stop: "\<And>r r' c'. provision_native_body a env i r = Some (r', c') \<Longrightarrow> c' \<noteq> Next"
    by fastforce
  have "(\<exists>r r'. provision_native_body a env i r = Some (r', c)) \<and> (\<forall>y \<in> set yielded. y \<le> i)"
    using queue_pass_stops [OF pass [unfolded read_device_queue_def] i stop] .
  then show "c = Break \<or> (\<exists>er. c = Raised er)" "\<forall>y \<in> set yielded. y \<le> i"
    using body by blast+
next
  assume pass: "read_device_queue group_filter None clock (provision_ddwrt_body a denv) device_queue
       = Some (queue', yielded, c)"
    and i: "i \<in> set yielded"
    and n: "\<forall>n. never_acknowledged (dd_attempt (denv i) n) (if two_routers a then 3 else 1)"
  have body: "\<And>r r' c'. provision_ddwrt_body a denv i r = Some (r', c') \<Longrightarrow> \<exists>er. c' = Raised er"
    using ddwrt_body_stops [of denv i a] n by blast
  then have stop: "\<And>r r' c'. provision_ddwrt_body a denv i r = Some (r', c') \<Longrightarrow> c' \<noteq> Next"
    by fastforce
  have "(\<exists>r r'. provision_ddwrt_body a denv i r = Some (r', c)) \<and> (\<forall>y \<in> set yielded. y \<le> i)"
    using queue_pass_stops [OF pass [unfolded read_device_queue_def] i stop] .
  then show "\<exists>er. c = Raised er" "\<forall>y \<in> set yielded. y \<le> i"
    using body by blast+
qed

text \<open>
  Two pending entries for the network \<open>net\<close>, with its password; a factory device is
  found for the first, and no try to send it the credentials is acknowledged.
\<close>

definition list_args :: args where
  "list_args = \<lparr>operation = ''provision-list'', wait_time = 0, two_routers = False\<rparr>"

definition deaf_native :: "nat \<Rightarrow> native_env" where
  "deaf_native i = \<lparr>found = Some ''shelly1-A1'', factory_status = True, queue_writable = True,
                     push_attempt = (\<lambda>p j. PushRaised), reconnect = True, completed_at = 9,
                     check_status = (\<lambda>r. (r, Confirmed)), disable_ap = None\<rparr>"

definition deaf_ddwrt :: "nat \<Rightarrow> ddwrt_env" where
  "deaf_ddwrt i = \<lparr>surveys = [Inr [], Inr [''shelly1-A1'']], in_progress_at = 5,
                    dd_queue_writable = True, router_programming = (\<lambda>n. None),
                    forwarded_status = (\<lambda>n. True), dd_attempt = (\<lambda>n p j. ErrorReply),
                    back_to_ap = None, dd_check_status = (\<lambda>r. (r, Confirmed)),
                    dd_completed_at = 9\<rparr>"

definition net_cfg :: json where
  "net_cfg = JObj [(''SSID'', JStr ''net''), (''Password'', JStr ''secret'')]"

definition net_pending :: json where
  "net_pending = JObj [(''ConfigInput'', net_cfg),
                       (''ConfigStatus'', JObj [(''InsertTime'', JFloat 1)])]"

definition net_marked :: json where
  "net_marked = JObj [(''ConfigInput'', net_cfg),
                      (''ConfigStatus'', JObj [(''InsertTime'', JFloat 1),
                                               (''InProgressTime'', JFloat 5)])]"

definition net_found :: "string \<Rightarrow> json" where
  "net_found f = JObj [(''ConfigInput'', net_cfg),
                       (''ConfigStatus'', JObj [(''InsertTime'', JFloat 1),
                                                (''InProgressTime'', JFloat 5),
                                                (''factory_ssid'', JStr f)])]"

lemma queue_step_net:
  "queue_step None (Some ''net'') 5 net_pending = Inr (Some net_marked)"
  "queue_step None None 5 net_pending = Inr (Some net_marked)"
  by (simp_all add: queue_step_def net_pending_def net_marked_def net_cfg_def has_completed_def
        or_else_def group_mismatch_def ssid_mismatch_def mark_in_progress_def)

lemma marked_fields:
  "py_getitem net_marked ''ConfigInput'' = Inr net_cfg"
  "set_status_field net_marked ''factory_ssid'' (JStr f) = Inr (net_found f)"
  "set_status_field (net_found f) ''InProgressTime'' (JFloat 5) = Inr (net_found f)"
  by (simp_all add: net_marked_def net_found_def set_status_field_def)

lemma net_cfg_fields:
  "static_addressing op net_cfg = Inr (JNull, JNull, JNull)"
  "cfg_credentials net_cfg = Inr (JStr ''net'', JStr ''secret'')"
  "ap_arguments a net_cfg = None"
  by (simp_all add: static_addressing_def cfg_credentials_def ap_arguments_def net_cfg_def)

lemma provision_device_deaf:
  assumes "\<And>p j. attempt p j \<noteq> Acknowledged"
  shows "provision_device op net_cfg attempt tries = Inr False"
  using assms by (simp add: provision_device_def net_cfg_fields run_passes_iff)

lemma native_body_deaf:
  "provision_native_body list_args deaf_native i net_marked
     = Some (net_found ''shelly1-A1'', Raised (SystemExit []))"
proof -
  have pd: "provision_device (operation list_args) net_cfg (push_attempt (deaf_native i)) 3 = Inr False"
    by (rule provision_device_deaf) (simp add: deaf_native_def)
  have env: "found (deaf_native i) = Some ''shelly1-A1''" "factory_status (deaf_native i)"
    "queue_writable (deaf_native i)" "reconnect (deaf_native i)"
    by (simp_all add: deaf_native_def)
  show ?thesis
    by (simp add: provision_native_body_def Let_def marked_fields env pd)
qed

lemma native_pass_deaf:
  "read_device_queue None (Some ''net'') (\<lambda>_. 5) (provision_native_body list_args deaf_native)
      [net_pending, net_pending]
     = Some ([net_found ''shelly1-A1'', net_pending], [0], Raised (SystemExit []))"
  by (simp add: read_device_queue_def queue_step_net native_body_deaf)

lemma deaf_ddwrt_routers:
  "router_programming (deaf_ddwrt i) n = None" "forwarded_status (deaf_ddwrt i) n"
  by (simp_all add: deaf_ddwrt_def)

text \<open>With these routers every attempt gets to the push, and the tenth is the last.\<close>

lemma ddwrt_attempts_deaf:
  "10 - attempts \<le> n \<Longrightarrow>
     ddwrt_attempts a net_cfg (deaf_ddwrt i) attempts = Inl (SystemExit [])"
proof (induction n arbitrary: attempts)
  case 0
  have pd: "provision_device (operation a) net_cfg (dd_attempt (deaf_ddwrt i) (Suc attempts))
              (if two_routers a then 3 else 1) = Inr False"
    by (rule provision_device_deaf) (simp add: deaf_ddwrt_def)
  from 0 have "10 \<le> attempts + 1" by simp
  then show ?case
    by (subst ddwrt_attempts.simps) (simp add: pd deaf_ddwrt_routers net_cfg_fields)
next
  case (Suc n)
  have pd: "provision_device (operation a) net_cfg (dd_attempt (deaf_ddwrt i) (Suc attempts))
              (if two_routers a then 3 else 1) = Inr False"
    by (rule provision_device_deaf) (simp add: deaf_ddwrt_def)
  have "ddwrt_attempts a net_cfg (deaf_ddwrt i) (attempts + 1) = Inl (SystemExit [])"
    using Suc.IH [of "attempts + 1"] Suc.prems by simp
  then show ?case
    by (subst ddwrt_attempts.simps) (simp add: pd deaf_ddwrt_routers net_cfg_fields)
qed

lemma ddwrt_body_deaf:
  "provision_ddwrt_body list_args deaf_ddwrt i net_marked
     = Some (net_found ''shelly1-A1'', Raised (SystemExit []))"
proof -
  have att: "ddwrt_attempts list_args net_cfg (deaf_ddwrt i) 0 = Inl (SystemExit [])"
    by (rule ddwrt_attempts_deaf [of 0 10]) simp
  have env: "ddwrt_discovery (surveys (deaf_ddwrt i)) = Some (Inr ''shelly1-A1'')"
    "in_progress_at (deaf_ddwrt i) = 5" "dd_queue_writable (deaf_ddwrt i)"
    by (simp_all add: deaf_ddwrt_def)
  show ?thesis
    by (simp add: provision_ddwrt_body_def Let_def marked_fields env att)
qed

lemma ddwrt_pass_deaf:
  "read_device_queue None None (\<lambda>_. 5) (provision_ddwrt_body list_args deaf_ddwrt)
      [net_pending, net_pending]
     = Some ([net_found ''shelly1-A1'', net_pending], [0], Raised (SystemExit []))"
  by (simp add: read_device_queue_def queue_step_net ddwrt_body_deaf)

lemma deaf_never:
  "never_acknowledged (push_attempt (deaf_native i)) 3"
  "never_acknowledged (dd_attempt (deaf_ddwrt i) n) tries"
  "found (deaf_native i) \<noteq> None"
  by (simp_all add: never_acknowledged_def deaf_native_def deaf_ddwrt_def)

theorem credential_failure_ends_run_witness:
  "read_device_queue None (Some ''net'') (\<lambda>_. 5) (provision_native_body list_args deaf_native)
      [net_pending, net_pending]
     = Some ([net_found ''shelly1-A1'', net_pending], [0], Raised (SystemExit []))
   \<and> read_device_queue None None (\<lambda>_. 5) (provision_ddwrt_body list_args deaf_ddwrt)
      [net_pending, net_pending]
     = Some ([net_found ''shelly1-A1'', net_pending], [0], Raised (SystemExit []))
   \<and> (\<exists>er. Raised (SystemExit []) = Raised er)"
  using credential_failure_ends_run [of None "Some ''net''" "\<lambda>_. 5" list_args deaf_native
          "[net_pending, net_pending]"
          "[net_found ''shelly1-A1'', net_pending]" "[0]"
          "Raised (SystemExit [])" 0 deaf_ddwrt]
        native_pass_deaf ddwrt_pass_deaf deaf_never
  by simp

text \<open>
  An entry without a password, of the kind \<^verbatim>\<open>provision_native\<close> can do with: under
  \<^verbatim>\<open>provision_ddwrt\<close> with a single router the first attempt raises \<^verbatim>\<open>KeyError\<close> where
  the arguments of \<^verbatim>\<open>provision_device\<close> are read, before anything is sent.
\<close>

lemma ddwrt_body_no_password:
  "provision_ddwrt_body list_args deaf_ddwrt i (entry_marked ''net'')
     = Some (JObj [(''ConfigInput'', JObj [(''SSID'', JStr ''net'')]),
                   (''ConfigStatus'', JObj [(''InsertTime'', JFloat 1),
                                            (''InProgressTime'', JFloat 5),
                                            (''factory_ssid'', JStr ''shelly1-A1'')])],
             Raised (KeyError ''Password''))"
proof -
  have att: "ddwrt_attempts list_args (JObj [(''SSID'', JStr ''net'')]) (deaf_ddwrt i) 0
               = Inl (KeyError ''Password'')"
    by (subst ddwrt_attempts.simps)
       (simp add: deaf_ddwrt_routers ap_arguments_def cfg_credentials_def list_args_def)
  have env: "ddwrt_discovery (surveys (deaf_ddwrt i)) = Some (Inr ''shelly1-A1'')"
    "in_progress_at (deaf_ddwrt i) = 5" "dd_queue_writable (deaf_ddwrt i)"
    by (simp_all add: deaf_ddwrt_def)
  show ?thesis
    by (simp add: provision_ddwrt_body_def Let_def entry_marked_def set_status_field_def env att)
qed

section \<open>Flattening a device record: \<^verbatim>\<open>flatten\<close>\<close>

text \<open>
  \<^verbatim>\<open>a.update(b)\<close> on dicts: the entries of \<open>b\<close>, in order, are written into \<open>a\<close>.
\<close>

definition dict_update :: "'v dict \<Rightarrow> 'v dict \<Rightarrow> 'v dict" where
  "dict_update a b = foldl (\<lambda>acc (k, v). AList.update k v acc) a b"

text \<open>
  The inner dicts of the coverage guide have the device type as key: any hashable value,
  \<^verbatim>\<open>None\<close> included. Python compares keys with \<^verbatim>\<open>==\<close>, which identifies \<^verbatim>\<open>True\<close>,
  \<^verbatim>\<open>1\<close> and \<^verbatim>\<open>1.0\<close>; a list or a dict is not hashable.
\<close>

fun py_num :: "json \<Rightarrow> real option" where
  "py_num (JBool b) = Some (if b then 1 else 0)"
| "py_num (JInt n) = Some (real_of_int n)"
| "py_num (JFloat r) = Some r"
| "py_num _ = None"

definition py_key_eq :: "json \<Rightarrow> json \<Rightarrow> bool" where
  "py_key_eq a b =
     (case (py_num a, py_num b) of
        (Some x, Some y) \<Rightarrow> x = y
      | (None, None) \<Rightarrow> a = b
      | _ \<Rightarrow> False)"

fun hashable :: "json \<Rightarrow> bool" where
  "hashable (JArr _) = False"
| "hashable (JObj _) = False"
| "hashable _ = True"

type_synonym coverage = "(json \<times> string) list"

type_synonym guide = "coverage dict"

fun key_update :: "json \<Rightarrow> string \<Rightarrow> coverage \<Rightarrow> coverage" where
  "key_update t pk [] = [(t, pk)]"
| "key_update t pk (p # ps) =
     (if py_key_eq (fst p) t then (fst p, pk) # ps else p # key_update t pk ps)"

definition coverage_update :: "coverage \<Rightarrow> coverage \<Rightarrow> coverage" where
  "coverage_update a b = foldl (\<lambda>acc (t, pk). key_update t pk acc) a b"

text \<open>
  \<^verbatim>\<open>deep_update(d, u)\<close> on two guides: every value of \<open>u\<close> is a dict of strings, so
  \<^verbatim>\<open>d[k] = deep_update(d.get(k, {}), v)\<close> writes the entries of \<open>v\<close> over those of \<open>d[k]\<close>.
\<close>

definition deep_update :: "guide \<Rightarrow> guide \<Rightarrow> guide" where
  "deep_update d u =
     foldl (\<lambda>acc (k, v).
              AList.update k
                (coverage_update (case map_of acc k of None \<Rightarrow> [] | Some c \<Rightarrow> c) v) acc)
       d u"

text \<open>\<^verbatim>\<open>not x\<close> is true of \<^verbatim>\<open>None\<close>, \<^verbatim>\<open>False\<close>, zero and the empty string, list and dict.\<close>

fun py_truthy :: "json \<Rightarrow> bool" where
  "py_truthy JNull = False"
| "py_truthy (JBool b) = b"
| "py_truthy (JInt n) = (n \<noteq> 0)"
| "py_truthy (JFloat r) = (r \<noteq> 0)"
| "py_truthy (JStr s) = (s \<noteq> [])"
| "py_truthy (JArr xs) = (xs \<noteq> [])"
| "py_truthy (JObj d) = (d \<noteq> [])"

text \<open>
  \<^verbatim>\<open>d['settings']['device']['type'] if 'settings' in d and 'device' in d['settings']
  and 'type' in d['settings']['device'] else None\<close>, for a dict \<open>d\<close>.
\<close>

definition devtype_of :: "json dict \<Rightarrow> error + json" where
  "devtype_of d =
     (case map_of d ''settings'' of
        None \<Rightarrow> Inr JNull
      | Some settings \<Rightarrow>
     (case py_in ''device'' settings of
        Inl e \<Rightarrow> Inl e
      | Inr False \<Rightarrow> Inr JNull
      | Inr True \<Rightarrow>
     (case py_getitem settings ''device'' of
        Inl e \<Rightarrow> Inl e
      | Inr device \<Rightarrow>
     (case py_in ''type'' device of
        Inl e \<Rightarrow> Inl e
      | Inr False \<Rightarrow> Inr JNull
      | Inr True \<Rightarrow> py_getitem device ''type''))))"

text \<open>\<^verbatim>\<open>str(i)\<close> for an index \<open>i\<close>: its decimal digits.\<close>

definition is_digit :: "char \<Rightarrow> bool" where
  "is_digit c = (c \<in> set ''0123456789'')"

fun str_nat :: "nat \<Rightarrow> string" where
  "str_nat n =
     (if n < 10 then [''0123456789'' ! n]
      else str_nat (n div 10) @ [''0123456789'' ! (n mod 10)])"

declare str_nat.simps [simp del]

text \<open>
  \<^verbatim>\<open>re.sub( '\.[0-9]+\.', '.[n].', s )\<close>: from left to right, a dot followed by one or
  more digits and a dot becomes \<^verbatim>\<open>.[n].\<close>, and the search goes on behind the second dot.
\<close>

function index_to_n :: "string \<Rightarrow> string" where
  "index_to_n [] = []"
| "index_to_n (c # s) =
     (if c = CHR ''.'' \<and> takeWhile is_digit s \<noteq> [] \<and> startswith (dropWhile is_digit s) ''.''
      then ''.[n].'' @ index_to_n (tl (dropWhile is_digit s))
      else c # index_to_n s)"
  by pat_completeness auto
termination
proof (relation "measure length")
  show "wf (measure length)" by simp
next
  fix c :: char and s :: string
  have "length (tl (dropWhile is_digit s)) \<le> length s"
    using length_dropWhile_le [of is_digit s] by simp
  then show "(tl (dropWhile is_digit s), c # s) \<in> measure length" by simp
next
  fix c :: char and s :: string
  show "(s, c # s) \<in> measure length" by simp
qed

text \<open>
  \<^verbatim>\<open>re.sub( '\.$', '', s )\<close>: \<^verbatim>\<open>$\<close> is the end of the string, or the place before a
  newline that ends it.
\<close>

definition strip_dot :: "string \<Rightarrow> string" where
  "strip_dot s =
     (if endswith s ''.'' then butlast s
      else if endswith s [CHR ''.'', CHR 0x0A] then butlast (butlast s) @ [CHR 0x0A]
      else s)"

text \<open>
  The branch of \<^verbatim>\<open>flatten\<close> for a field \<open>k\<close> whose value is neither a dict nor a list:
  the value, as a string, under the short key and under the path, and the path with its
  indices replaced under both in the guide. \<open>str\<close> is Python's \<^verbatim>\<open>str\<close>, which is not
  part of the program. Writing the guide raises \<^verbatim>\<open>TypeError\<close> for a device type that is
  not hashable.
\<close>

definition scalar_entry ::
  "(json \<Rightarrow> string) \<Rightarrow> string \<Rightarrow> json \<Rightarrow> string \<Rightarrow> json \<Rightarrow> error + string dict \<times> guide" where
  "scalar_entry str k v prefix devtype =
     (let new_data = AList.update (prefix @ k) (str v) [(k, str v)];
          pk = index_to_n (prefix @ k)
      in if \<not> hashable devtype then Inl TypeError
         else Inr (new_data,
                   AList.update (prefix @ k)
                     (key_update devtype pk
                        (case map_of [(k, [(devtype, pk)])] (prefix @ k) of
                           None \<Rightarrow> [] | Some c \<Rightarrow> c))
                     [(k, [(devtype, pk)])]))"

text \<open>The branch for a value \<open>d\<close> that is not a dict.\<close>

definition leaf_entry ::
  "(json \<Rightarrow> string) \<Rightarrow> json \<Rightarrow> string \<Rightarrow> json \<Rightarrow> error + string dict \<times> guide" where
  "leaf_entry str d prefix devtype =
     (let pk = strip_dot (index_to_n prefix);
          prefix' = strip_dot prefix
      in if \<not> hashable devtype then Inl TypeError
         else Inr ([(prefix', str d)], [(prefix', [(devtype, pk)])]))"

text \<open>
  \<^verbatim>\<open>flatten( d, prefix, devtype )\<close>, with the loop \<^verbatim>\<open>for k in d\<close> (state \<^verbatim>\<open>result\<close> and
  \<^verbatim>\<open>guide\<close>) and the loop \<^verbatim>\<open>for i in range(len(d[k]))\<close> (state \<^verbatim>\<open>new_data\<close> and
  \<^verbatim>\<open>new_guide\<close>) as functions of their own. A dict is walked in the order of its entries.
  After each field, \<^verbatim>\<open>new_data.update( result )\<close> lets what was there before win.
\<close>

function (sequential) flatten ::
    "(json \<Rightarrow> string) \<Rightarrow> json \<Rightarrow> string \<Rightarrow> json \<Rightarrow> error + string dict \<times> guide"
  and flatten_fields ::
    "(json \<Rightarrow> string) \<Rightarrow> (string \<times> json) list \<Rightarrow> string \<Rightarrow> json \<Rightarrow> string dict \<Rightarrow> guide
       \<Rightarrow> error + string dict \<times> guide"
  and flatten_elems ::
    "(json \<Rightarrow> string) \<Rightarrow> json list \<Rightarrow> nat \<Rightarrow> string \<Rightarrow> json \<Rightarrow> string dict \<Rightarrow> guide
       \<Rightarrow> error + string dict \<times> guide" where
  "flatten str (JObj d) prefix devtype =
     (case (if \<not> py_truthy devtype then devtype_of d else Inr devtype) of
        Inl e \<Rightarrow> Inl e
      | Inr devtype' \<Rightarrow> flatten_fields str d prefix devtype' [] [])"
| "flatten str d prefix devtype = leaf_entry str d prefix devtype"
| "flatten_fields str [] prefix devtype result guide = Inr (result, guide)"
| "flatten_fields str ((k, v) # rest) prefix devtype result guide =
     (case (case v of
              JObj _ \<Rightarrow> flatten str v (prefix @ k @ ''.'') devtype
            | JArr xs \<Rightarrow> flatten_elems str xs 0 (prefix @ k @ ''.'') devtype [] []
            | _ \<Rightarrow> scalar_entry str k v prefix devtype) of
        Inl e \<Rightarrow> Inl e
      | Inr (new_data, new_guide) \<Rightarrow>
          flatten_fields str rest prefix devtype
            (dict_update new_data result) (deep_update new_guide guide))"
| "flatten_elems str [] i prefix devtype new_data new_guide = Inr (new_data, new_guide)"
| "flatten_elems str (x # xs) i prefix devtype new_data new_guide =
     (case flatten str x (prefix @ str_nat i @ ''.'') devtype of
        Inl e \<Rightarrow> Inl e
      | Inr (tmp_data, tmp_guide) \<Rightarrow>
          flatten_elems str xs (Suc i) prefix devtype
            (dict_update new_data tmp_data) (dict_update new_guide tmp_guide))"
  by pat_completeness auto
termination
  by (relation "measure (\<lambda>x. case x of
          Inl (str, d, prefix, devtype) \<Rightarrow> 2 * size d
        | Inr (Inl (str, fs, prefix, devtype, result, guide)) \<Rightarrow> 2 * size_list (size_prod (\<lambda>x. 0) size) fs + 1
        | Inr (Inr (str, xs, i, prefix, devtype, new_data, new_guide)) \<Rightarrow> 2 * size_list size xs + 1)")
     auto

section \<open>What a flat map should hold\<close>

text \<open>
  A path into a record: the names of the fields and the indices of the list elements passed
  on the way. Its dotted form joins them with dots; in its wildcard form every index is
  \<^verbatim>\<open>[n]\<close>.
\<close>

datatype seg = Key string | Index nat

fun seg_str :: "seg \<Rightarrow> string" where
  "seg_str (Key k) = k"
| "seg_str (Index i) = str_nat i"

fun seg_wild :: "seg \<Rightarrow> string" where
  "seg_wild (Key k) = k"
| "seg_wild (Index i) = ''[n]''"

definition dotted :: "seg list \<Rightarrow> string" where
  "dotted path = join ''.'' (map seg_str path)"

definition wildcard :: "seg list \<Rightarrow> string" where
  "wildcard path = join ''.'' (map seg_wild path)"

text \<open>
  The leaves of a record, each with its path, in the order of the record: a field that is
  neither a dict nor a list, and an element of a list that is not a dict. A list that is
  itself an element of a list is one leaf: \<^verbatim>\<open>flatten\<close> does not go into it.
\<close>

function (sequential) record_leaves :: "(string \<times> json) list \<Rightarrow> seg list \<Rightarrow> (seg list \<times> json) list"
  and list_leaves :: "json list \<Rightarrow> nat \<Rightarrow> seg list \<Rightarrow> (seg list \<times> json) list" where
  "record_leaves [] path = []"
| "record_leaves ((k, v) # rest) path =
     (case v of
        JObj d \<Rightarrow> record_leaves d (path @ [Key k])
      | JArr xs \<Rightarrow> list_leaves xs 0 (path @ [Key k])
      | _ \<Rightarrow> [(path @ [Key k], v)]) @ record_leaves rest path"
| "list_leaves [] i path = []"
| "list_leaves (x # xs) i path =
     (case x of
        JObj d \<Rightarrow> record_leaves d (path @ [Index i])
      | _ \<Rightarrow> [(path @ [Index i], x)]) @ list_leaves xs (Suc i) path"
  by pat_completeness auto
termination
  by (relation "measure (\<lambda>x. case x of
          Inl (fs, path) \<Rightarrow> size_list (size_prod (\<lambda>x. 0) size) fs
        | Inr (xs, i, path) \<Rightarrow> size_list size xs)")
     auto

text \<open>
  The keys a leaf is filed under: its dotted path and, for a field of a dict, the name of
  the field.
\<close>

definition leaf_keys :: "seg list \<Rightarrow> string list" where
  "leaf_keys path = (case last path of Key k \<Rightarrow> [k, dotted path] | Index i \<Rightarrow> [dotted path])"

definition filed_under :: "string \<Rightarrow> (seg list \<times> json) list \<Rightarrow> (seg list \<times> json) list" where
  "filed_under x leaves = filter (\<lambda>(q, v). x \<in> set (leaf_keys q)) leaves"

text \<open>The prefix \<^verbatim>\<open>flatten\<close> is called with for what lies below a path.\<close>

definition prefix_of :: "seg list \<Rightarrow> string" where
  "prefix_of path = (if path = [] then [] else dotted path @ ''.'')"

text \<open>The leaves below a value at a path, and the entries a list of leaves asks for.\<close>

fun leaves_below :: "json \<Rightarrow> seg list \<Rightarrow> (seg list \<times> json) list" where
  "leaves_below (JObj d) path = record_leaves d path"
| "leaves_below v path = [(path, v)]"

definition field_leaves :: "string \<Rightarrow> json \<Rightarrow> seg list \<Rightarrow> (seg list \<times> json) list" where
  "field_leaves k v path =
     (case v of
        JArr xs \<Rightarrow> list_leaves xs 0 (path @ [Key k])
      | _ \<Rightarrow> leaves_below v (path @ [Key k]))"

definition stored :: "(json \<Rightarrow> string) \<Rightarrow> (seg list \<times> json) list \<Rightarrow> (string \<times> string) set" where
  "stored str leaves = (\<Union>(q, v) \<in> set leaves. (\<lambda>x. (x, str v)) ` set (leaf_keys q))"

text \<open>What one field of a dict contributes in \<^verbatim>\<open>flatten\<close>, as the loop body computes it.\<close>

definition field_entry ::
  "(json \<Rightarrow> string) \<Rightarrow> string \<Rightarrow> json \<Rightarrow> string \<Rightarrow> json \<Rightarrow> error + string dict \<times> guide" where
  "field_entry str k v prefix devtype =
     (case v of
        JArr xs \<Rightarrow> flatten_elems str xs 0 (prefix @ k @ ''.'') devtype [] []
      | JObj x \<Rightarrow> flatten str v (prefix @ k @ ''.'') devtype
      | _ \<Rightarrow> scalar_entry str k v prefix devtype)"

text \<open>
  Python's \<^verbatim>\<open>str\<close> on the values of the examples below: \<^verbatim>\<open>None\<close>, booleans, integers
  and strings.
\<close>

fun py_str :: "json \<Rightarrow> string" where
  "py_str JNull = ''None''"
| "py_str (JBool b) = (if b then ''True'' else ''False'')"
| "py_str (JInt n) = (if n < 0 then ''-'' @ str_nat (nat (- n)) else str_nat (nat n))"
| "py_str (JStr s) = s"
| "py_str _ = undefined"

section \<open>What the coverage guide should hold\<close>

text \<open>
  The path \<^verbatim>\<open>flatten\<close> writes into the guide for a leaf: for a field of a dict,
  \<^verbatim>\<open>re.sub( '\.[0-9]+\.', '.[n].', prefix + k )\<close>; for an element of a list, the same of the
  prefix, which ends in a dot, and then the dot taken off.
\<close>

definition guide_form :: "seg list \<Rightarrow> string" where
  "guide_form path =
     (case last path of
        Key k \<Rightarrow> index_to_n (dotted path)
      | Index i \<Rightarrow> strip_dot (index_to_n (dotted path @ ''.'')))"

definition noted :: "(seg list \<times> json) list \<Rightarrow> (string \<times> string) set" where
  "noted leaves = (\<Union>(q, v) \<in> set leaves. (\<lambda>x. (x, guide_form q)) ` set (leaf_keys q))"

text \<open>The paths a guide holds under each key, whatever the device type.\<close>

definition guide_pairs :: "guide \<Rightarrow> (string \<times> string) set" where
  "guide_pairs g = {(x, pk). \<exists>cov t. (x, cov) \<in> set g \<and> (t, pk) \<in> set cov}"

definition covered :: "guide \<Rightarrow> bool" where
  "covered g = (\<forall>(x, cov) \<in> set g. cov \<noteq> [])"

text \<open>
  A guide \<open>g\<close> that came from \<open>guide\<close> by taking in the paths \<open>N\<close>: it holds no other
  path, it has the keys of both, and no key of it is left without a path.
\<close>

definition guide_rel :: "guide \<Rightarrow> guide \<Rightarrow> (string \<times> string) set \<Rightarrow> bool" where
  "guide_rel g guide N \<longleftrightarrow>
     guide_pairs g \<subseteq> guide_pairs guide \<union> N
     \<and> fst ` set g = fst ` set guide \<union> fst ` N
     \<and> (covered guide \<longrightarrow> covered g)"

text \<open>
  A key that the substitution leaves alone wherever it stands in a path: it has no dot, and
  it is not a string of digits. A path in which no index follows another: \<^verbatim>\<open>flatten\<close>
  makes no other, since it does not go into a list inside a list.
\<close>

definition plain_key :: "string \<Rightarrow> bool" where
  "plain_key k \<longleftrightarrow> CHR ''.'' \<notin> set k \<and> (k = [] \<or> (\<exists>c \<in> set k. \<not> is_digit c))"

fun plain_seg :: "seg \<Rightarrow> bool" where
  "plain_seg (Key k) = plain_key k"
| "plain_seg (Index i) = True"

fun spaced :: "seg list \<Rightarrow> bool" where
  "spaced (Index i # Index j # rest) = False"
| "spaced (s # rest) = spaced rest"
| "spaced [] = True"

text \<open>What follows the first segment in the dotted form of a path: a dot before every segment.\<close>

definition dots :: "(seg \<Rightarrow> string) \<Rightarrow> seg list \<Rightarrow> string" where
  "dots f rest = concat (map (\<lambda>s. CHR ''.'' # f s) rest)"

section \<open>Properties of \<^verbatim>\<open>flatten\<close>\<close>

text \<open>What \<^verbatim>\<open>a.update(b)\<close> holds afterwards: the entries of \<open>b\<close>, and those of \<open>a\<close> elsewhere.\<close>

lemma dict_update_Nil: "dict_update a [] = a"
  by (simp add: dict_update_def)

lemma dict_update_Cons: "dict_update a ((k, v) # b) = dict_update (AList.update k v a) b"
  by (simp add: dict_update_def)

lemma distinct_dict_update:
  "distinct (map fst a) \<Longrightarrow> distinct (map fst (dict_update a b))"
proof (induction b arbitrary: a)
  case Nil
  then show ?case by (simp add: dict_update_Nil)
next
  case (Cons p b)
  obtain k v where p: "p = (k, v)" by (cases p)
  from Cons.prems have "distinct (map fst (AList.update k v a))" by (rule distinct_update)
  then show ?case unfolding p dict_update_Cons by (rule Cons.IH)
qed

lemma map_of_dict_update:
  "distinct (map fst b) \<Longrightarrow>
     map_of (dict_update a b) x = (case map_of b x of Some v \<Rightarrow> Some v | None \<Rightarrow> map_of a x)"
proof (induction b arbitrary: a)
  case Nil
  then show ?case by (simp add: dict_update_Nil)
next
  case (Cons p b)
  obtain k v where p: "p = (k, v)" by (cases p)
  from Cons.prems have d: "distinct (map fst b)" and k: "k \<notin> fst ` set b" by (simp_all add: p)
  from k have none: "map_of b k = None" by (simp add: map_of_eq_None_iff)
  have "map_of (dict_update a (p # b)) x
          = (case map_of b x of Some v \<Rightarrow> Some v | None \<Rightarrow> map_of (AList.update k v a) x)"
    unfolding p dict_update_Cons by (rule Cons.IH [OF d])
  also have "\<dots> = (case map_of (p # b) x of Some v \<Rightarrow> Some v | None \<Rightarrow> map_of a x)"
    using none by (cases "x = k") (simp_all add: p update_conv' split: option.splits)
  finally show ?case .
qed

text \<open>The data a scalar field contributes: its string, under the name and under the path.\<close>

lemma scalar_entry_data:
  assumes "scalar_entry str k v prefix devtype = Inr (nd, ng)"
  shows "distinct (map fst nd)"
    and "map_of nd x = (if x = k \<or> x = prefix @ k then Some (str v) else None)"
proof -
  from assms have nd: "nd = AList.update (prefix @ k) (str v) [(k, str v)]"
    by (simp add: scalar_entry_def Let_def split: if_splits)
  show "distinct (map fst nd)" unfolding nd by (rule distinct_update) simp
  show "map_of nd x = (if x = k \<or> x = prefix @ k then Some (str v) else None)"
    unfolding nd by (simp add: update_conv')
qed

lemma leaf_entry_data:
  assumes "leaf_entry str d prefix devtype = Inr (nd, ng)"
  shows "nd = [(strip_dot prefix, str d)]"
  using assms by (simp add: leaf_entry_def Let_def split: if_splits)

text \<open>Every dict that \<^verbatim>\<open>flatten\<close> builds has each key once.\<close>

lemma flatten_distinct:
  "flatten str d prefix devtype = Inr (r, g) \<Longrightarrow> distinct (map fst r)"
  "distinct (map fst result) \<Longrightarrow> flatten_fields str fs prefix devtype result guide = Inr (r, g)
     \<Longrightarrow> distinct (map fst r)"
  "distinct (map fst new_data)
     \<Longrightarrow> flatten_elems str xs i prefix devtype new_data new_guide = Inr (r, g)
     \<Longrightarrow> distinct (map fst r)"
proof (induction str d prefix devtype and str fs prefix devtype result guide
         and str xs i prefix devtype new_data new_guide
       arbitrary: r g and r g and r g rule: flatten_flatten_fields_flatten_elems.induct)
  case (1 str d prefix devtype)
  from 1(2) obtain b where b: "(if \<not> py_truthy devtype then devtype_of d else Inr devtype) = Inr b"
    and f: "flatten_fields str d prefix b [] [] = Inr (r, g)"
    by (auto split: sum.splits)
  show ?case by (rule 1(1) [OF b _ f]) simp
next
  case (3 str prefix devtype result guide)
  then show ?case by simp
next
  case (4 str k v rest prefix devtype result guide)
  let ?e = "case v of
              JArr xs \<Rightarrow> flatten_elems str xs 0 (prefix @ k @ ''.'') devtype [] []
            | JObj x \<Rightarrow> flatten str v (prefix @ k @ ''.'') devtype
            | _ \<Rightarrow> scalar_entry str k v prefix devtype"
  from 4(5) obtain nd ng where e: "?e = Inr (nd, ng)"
    and f: "flatten_fields str rest prefix devtype (dict_update nd result) (deep_update ng guide)
              = Inr (r, g)"
    by (auto split: sum.splits)
  have "distinct (map fst nd)"
  proof (cases v)
    case (JArr xs)
    with e have "flatten_elems str xs 0 (prefix @ k @ ''.'') devtype [] [] = Inr (nd, ng)" by simp
    with 4(1) [OF JArr] show ?thesis by simp
  next
    case (JObj x)
    with e have "flatten str v (prefix @ k @ ''.'') devtype = Inr (nd, ng)" by simp
    with 4(2) [OF JObj] show ?thesis by simp
  qed (use e in \<open>simp_all add: scalar_entry_data(1)\<close>)
  then have "distinct (map fst (dict_update nd result))" by (rule distinct_dict_update)
  from 4(3) [OF e refl this f] show ?case .
next
  case (5 str i prefix devtype new_data new_guide)
  then show ?case by simp
next
  case (6 str x xs i prefix devtype new_data new_guide)
  from 6(4) obtain td tg where e: "flatten str x (prefix @ str_nat i @ ''.'') devtype = Inr (td, tg)"
    and f: "flatten_elems str xs (Suc i) prefix devtype (dict_update new_data td)
              (dict_update new_guide tg) = Inr (r, g)"
    by (auto split: sum.splits)
  from 6(3) have "distinct (map fst (dict_update new_data td))" by (rule distinct_dict_update)
  from 6(2) [OF e refl this f] show ?case .
qed (auto simp add: leaf_entry_def Let_def split: if_splits)

text \<open>The loop over the fields, one field at a time.\<close>

lemma flatten_fields_Cons:
  "flatten_fields str ((k, v) # rest) prefix devtype result guide =
     (case field_entry str k v prefix devtype of
        Inl e \<Rightarrow> Inl e
      | Inr (new_data, new_guide) \<Rightarrow>
          flatten_fields str rest prefix devtype
            (dict_update new_data result) (deep_update new_guide guide))"
  by (simp add: field_entry_def)

lemma record_leaves_Cons:
  "record_leaves ((k, v) # rest) path = field_leaves k v path @ record_leaves rest path"
  by (cases v) (simp_all add: field_leaves_def)

lemma list_leaves_Cons:
  "list_leaves (x # xs) i path = leaves_below x (path @ [Index i]) @ list_leaves xs (Suc i) path"
  by (cases x) simp_all

lemma stored_simps:
  "stored str [] = {}"
  "stored str (a @ b) = stored str a \<union> stored str b"
  "stored str [(q, v)] = (\<lambda>x. (x, str v)) ` set (leaf_keys q)"
  by (simp_all add: stored_def)

lemma join_snoc: "xs \<noteq> [] \<Longrightarrow> join sep (xs @ [y]) = join sep xs @ sep @ y"
proof (induction xs)
  case Nil
  then show ?case by simp
next
  case (Cons x xs)
  show ?case
  proof (cases xs)
    case Nil
    then show ?thesis by simp
  next
    case (Cons z zs)
    with Cons.IH show ?thesis by simp
  qed
qed

lemma dotted_snoc: "dotted (path @ [s]) = prefix_of path @ seg_str s"
  by (cases "path = []") (simp_all add: dotted_def prefix_of_def join_snoc)

lemma prefix_of_snoc: "prefix_of (path @ [s]) = prefix_of path @ seg_str s @ ''.''"
  using dotted_snoc [of path s] by (simp add: prefix_of_def)

lemma strip_dot_snoc: "strip_dot (s @ ''.'') = s"
  by (simp add: strip_dot_def endswith_def)

lemma strip_dot_prefix_of: "path \<noteq> [] \<Longrightarrow> strip_dot (prefix_of path) = dotted path"
  by (simp add: prefix_of_def strip_dot_snoc)

lemma leaf_keys_snoc:
  "leaf_keys (path @ [Key k]) = [k, prefix_of path @ k]"
  "leaf_keys (path @ [Index i]) = [prefix_of path @ str_nat i]"
  by (simp_all add: leaf_keys_def dotted_snoc)

lemma dotted_in_leaf_keys: "dotted path \<in> set (leaf_keys path)"
  by (cases "last path") (simp_all add: leaf_keys_def)

lemma set_update_subset: "set (AList.update k v al) \<subseteq> insert (k, v) (set al)"
  by (induction al) auto

lemma set_dict_update: "set (dict_update a b) \<subseteq> set a \<union> set b"
proof (induction b arbitrary: a)
  case Nil
  then show ?case by (simp add: dict_update_Nil)
next
  case (Cons p b)
  obtain k v where p: "p = (k, v)" by (cases p)
  have "set (dict_update a (p # b)) \<subseteq> set (AList.update k v a) \<union> set b"
    unfolding p dict_update_Cons by (rule Cons.IH)
  also have "\<dots> \<subseteq> set a \<union> set (p # b)"
    using set_update_subset [of k v a] by (auto simp add: p)
  finally show ?case .
qed

lemma dom_dict_update: "fst ` set (dict_update a b) = fst ` set a \<union> fst ` set b"
proof (induction b arbitrary: a)
  case Nil
  then show ?case by (simp add: dict_update_Nil)
next
  case (Cons p b)
  obtain k v where p: "p = (k, v)" by (cases p)
  have "fst ` set (dict_update a (p # b)) = fst ` set (AList.update k v a) \<union> fst ` set b"
    unfolding p dict_update_Cons by (rule Cons.IH)
  also have "\<dots> = fst ` set a \<union> fst ` set (p # b)"
    by (auto simp add: p dom_update)
  finally show ?case .
qed

text \<open>A scalar field and a list element that is not a dict, as sets of entries.\<close>

lemma scalar_entry_set:
  assumes "scalar_entry str k v prefix devtype = Inr (nd, ng)"
  shows "set nd \<subseteq> {(k, str v), (prefix @ k, str v)}"
    and "fst ` set nd = {k, prefix @ k}"
proof -
  from assms have nd: "nd = AList.update (prefix @ k) (str v) [(k, str v)]"
    by (simp add: scalar_entry_def Let_def split: if_splits)
  show "set nd \<subseteq> {(k, str v), (prefix @ k, str v)}"
    using set_update_subset [of "prefix @ k" "str v" "[(k, str v)]"] unfolding nd by auto
  show "fst ` set nd = {k, prefix @ k}"
    unfolding nd by (auto simp add: dom_update)
qed

lemma flatten_leaf:
  assumes "py_type d \<noteq> TDict" and "flatten str d prefix devtype = Inr (r, g)"
  shows "r = [(strip_dot prefix, str d)]"
  using assms by (cases d) (simp_all add: leaf_entry_data)

text \<open>
  Every entry of the flat map is the string of a leaf filed under that key, and every key a
  leaf is filed under is in the flat map.
\<close>

lemma flatten_data_sound:
  "prefix = prefix_of path \<Longrightarrow> path \<noteq> [] \<or> py_type d = TDict
     \<Longrightarrow> flatten str d prefix devtype = Inr (r, g)
     \<Longrightarrow> set r \<subseteq> stored str (leaves_below d path)"
  "prefix = prefix_of path \<Longrightarrow> flatten_fields str fs prefix devtype result guide = Inr (r, g)
     \<Longrightarrow> set r \<subseteq> set result \<union> stored str (record_leaves fs path)"
  "prefix = prefix_of path
     \<Longrightarrow> flatten_elems str xs i prefix devtype new_data new_guide = Inr (r, g)
     \<Longrightarrow> set r \<subseteq> set new_data \<union> stored str (list_leaves xs i path)"
proof (induction str d prefix devtype and str fs prefix devtype result guide
         and str xs i prefix devtype new_data new_guide
       arbitrary: r g path and r g path and r g path
       rule: flatten_flatten_fields_flatten_elems.induct)
  case (1 str d prefix devtype)
  from 1(4) obtain b where b: "(if \<not> py_truthy devtype then devtype_of d else Inr devtype) = Inr b"
    and f: "flatten_fields str d prefix b [] [] = Inr (r, g)"
    by (auto split: sum.splits)
  from 1(1) [OF b 1(2) f] show ?case by simp
next
  case (3 str prefix devtype result guide)
  then show ?case by simp
next
  case (4 str k v rest prefix devtype result guide)
  from 4(5) obtain nd ng where e: "field_entry str k v prefix devtype = Inr (nd, ng)"
    and f: "flatten_fields str rest prefix devtype (dict_update nd result) (deep_update ng guide)
              = Inr (r, g)"
    unfolding flatten_fields_Cons by (auto split: sum.splits)
  have p: "prefix @ k @ ''.'' = prefix_of (path @ [Key k])"
    by (simp add: prefix_of_snoc 4(4))
  have nd: "set nd \<subseteq> stored str (field_leaves k v path)"
  proof (cases v)
    case (JArr xs)
    with e have "flatten_elems str xs 0 (prefix @ k @ ''.'') devtype [] [] = Inr (nd, ng)"
      by (simp add: field_entry_def)
    from 4(1) [OF JArr p this] show ?thesis by (simp add: field_leaves_def JArr)
  next
    case (JObj x)
    with e have "flatten str v (prefix @ k @ ''.'') devtype = Inr (nd, ng)"
      by (simp add: field_entry_def)
    from 4(2) [OF JObj p _ this] show ?thesis by (simp add: field_leaves_def JObj)
  qed (use e scalar_entry_set(1) [of str k v prefix devtype nd ng] in
       \<open>simp_all add: field_entry_def field_leaves_def stored_simps leaf_keys_snoc 4(4)\<close>)
  from e have e': "(case v of
              JArr xs \<Rightarrow> flatten_elems str xs 0 (prefix @ k @ ''.'') devtype [] []
            | JObj x \<Rightarrow> flatten str v (prefix @ k @ ''.'') devtype
            | _ \<Rightarrow> scalar_entry str k v prefix devtype) = Inr (nd, ng)"
    by (simp add: field_entry_def)
  have "set r \<subseteq> set (dict_update nd result) \<union> stored str (record_leaves rest path)"
    by (rule 4(3) [OF e' refl 4(4) f])
  also have "\<dots> \<subseteq> set result \<union> stored str (record_leaves ((k, v) # rest) path)"
    using set_dict_update [of nd result] nd
    unfolding record_leaves_Cons stored_simps by auto
  finally show ?case .
next
  case (5 str i prefix devtype new_data new_guide)
  then show ?case by simp
next
  case (6 str x xs i prefix devtype new_data new_guide)
  from 6(4) obtain td tg where e: "flatten str x (prefix @ str_nat i @ ''.'') devtype = Inr (td, tg)"
    and f: "flatten_elems str xs (Suc i) prefix devtype (dict_update new_data td)
              (dict_update new_guide tg) = Inr (r, g)"
    by (auto split: sum.splits)
  have p: "prefix @ str_nat i @ ''.'' = prefix_of (path @ [Index i])"
    by (simp add: prefix_of_snoc 6(3))
  have td: "set td \<subseteq> stored str (leaves_below x (path @ [Index i]))"
    by (rule 6(1) [OF p _ e]) simp
  have "set r \<subseteq> set (dict_update new_data td) \<union> stored str (list_leaves xs (Suc i) path)"
    by (rule 6(2) [OF e refl 6(3) f])
  also have "\<dots> \<subseteq> set new_data \<union> stored str (list_leaves (x # xs) i path)"
    using set_dict_update [of new_data td] td
    unfolding list_leaves_Cons stored_simps by auto
  finally show ?case .
qed (auto simp add: leaf_entry_def Let_def stored_simps strip_dot_prefix_of dotted_in_leaf_keys
       split: if_splits)

lemma dom_stored:
  "fst ` stored str [] = {}"
  "fst ` stored str (a @ b) = fst ` stored str a \<union> fst ` stored str b"
  "fst ` stored str [(q, v)] = set (leaf_keys q)"
  by (simp_all add: stored_simps image_Un image_image)

lemma flatten_data_complete:
  "prefix = prefix_of path \<Longrightarrow> (\<exists>q i. path = q @ [Index i]) \<or> py_type d = TDict
     \<Longrightarrow> flatten str d prefix devtype = Inr (r, g)
     \<Longrightarrow> fst ` set r = fst ` stored str (leaves_below d path)"
  "prefix = prefix_of path \<Longrightarrow> flatten_fields str fs prefix devtype result guide = Inr (r, g)
     \<Longrightarrow> fst ` set r = fst ` set result \<union> fst ` stored str (record_leaves fs path)"
  "prefix = prefix_of path
     \<Longrightarrow> flatten_elems str xs i prefix devtype new_data new_guide = Inr (r, g)
     \<Longrightarrow> fst ` set r = fst ` set new_data \<union> fst ` stored str (list_leaves xs i path)"
proof (induction str d prefix devtype and str fs prefix devtype result guide
         and str xs i prefix devtype new_data new_guide
       arbitrary: r g path and r g path and r g path
       rule: flatten_flatten_fields_flatten_elems.induct)
  case (1 str d prefix devtype)
  from 1(4) obtain b where b: "(if \<not> py_truthy devtype then devtype_of d else Inr devtype) = Inr b"
    and f: "flatten_fields str d prefix b [] [] = Inr (r, g)"
    by (auto split: sum.splits)
  from 1(1) [OF b 1(2) f] show ?case by simp
next
  case (3 str prefix devtype result guide)
  then show ?case by (simp add: dom_stored)
next
  case (4 str k v rest prefix devtype result guide)
  from 4(5) obtain nd ng where e: "field_entry str k v prefix devtype = Inr (nd, ng)"
    and f: "flatten_fields str rest prefix devtype (dict_update nd result) (deep_update ng guide)
              = Inr (r, g)"
    unfolding flatten_fields_Cons by (auto split: sum.splits)
  have p: "prefix @ k @ ''.'' = prefix_of (path @ [Key k])"
    by (simp add: prefix_of_snoc 4(4))
  have nd: "fst ` set nd = fst ` stored str (field_leaves k v path)"
  proof (cases v)
    case (JArr xs)
    with e have "flatten_elems str xs 0 (prefix @ k @ ''.'') devtype [] [] = Inr (nd, ng)"
      by (simp add: field_entry_def)
    from 4(1) [OF JArr p this] show ?thesis by (simp add: field_leaves_def JArr)
  next
    case (JObj x)
    with e have "flatten str v (prefix @ k @ ''.'') devtype = Inr (nd, ng)"
      by (simp add: field_entry_def)
    from 4(2) [OF JObj p _ this] show ?thesis by (simp add: field_leaves_def JObj)
  qed (use e scalar_entry_set(2) [of str k v prefix devtype nd ng] in
       \<open>simp_all add: field_entry_def field_leaves_def dom_stored leaf_keys_snoc 4(4)\<close>)
  from e have e': "(case v of
              JArr xs \<Rightarrow> flatten_elems str xs 0 (prefix @ k @ ''.'') devtype [] []
            | JObj x \<Rightarrow> flatten str v (prefix @ k @ ''.'') devtype
            | _ \<Rightarrow> scalar_entry str k v prefix devtype) = Inr (nd, ng)"
    by (simp add: field_entry_def)
  have "fst ` set r = fst ` set (dict_update nd result) \<union> fst ` stored str (record_leaves rest path)"
    by (rule 4(3) [OF e' refl 4(4) f])
  also have "\<dots> = fst ` set result \<union> fst ` stored str (record_leaves ((k, v) # rest) path)"
    unfolding record_leaves_Cons dom_stored dom_dict_update nd by auto
  finally show ?case .
next
  case (5 str i prefix devtype new_data new_guide)
  then show ?case by (simp add: dom_stored)
next
  case (6 str x xs i prefix devtype new_data new_guide)
  from 6(4) obtain td tg where e: "flatten str x (prefix @ str_nat i @ ''.'') devtype = Inr (td, tg)"
    and f: "flatten_elems str xs (Suc i) prefix devtype (dict_update new_data td)
              (dict_update new_guide tg) = Inr (r, g)"
    by (auto split: sum.splits)
  have p: "prefix @ str_nat i @ ''.'' = prefix_of (path @ [Index i])"
    by (simp add: prefix_of_snoc 6(3))
  have td: "fst ` set td = fst ` stored str (leaves_below x (path @ [Index i]))"
    by (rule 6(1) [OF p _ e]) simp
  have "fst ` set r = fst ` set (dict_update new_data td)
          \<union> fst ` stored str (list_leaves xs (Suc i) path)"
    by (rule 6(2) [OF e refl 6(3) f])
  also have "\<dots> = fst ` set new_data \<union> fst ` stored str (list_leaves (x # xs) i path)"
    unfolding list_leaves_Cons dom_stored dom_dict_update td by auto
  finally show ?case .
qed (auto simp add: leaf_entry_def Let_def dom_stored strip_dot_prefix_of leaf_keys_def
       split: if_splits)

text \<open>
  The loop over the fields can be cut anywhere, and an entry that is in \<^verbatim>\<open>result\<close> stays
  as it is: \<^verbatim>\<open>new_data.update( result )\<close> writes it back over what a later field brings.
\<close>

lemma flatten_fields_append:
  "flatten_fields str (pre @ post) prefix devtype result guide =
     (case flatten_fields str pre prefix devtype result guide of
        Inl e \<Rightarrow> Inl e
      | Inr (r0, g0) \<Rightarrow> flatten_fields str post prefix devtype r0 g0)"
proof (induction pre arbitrary: result guide)
  case Nil
  then show ?case by simp
next
  case (Cons p pre)
  obtain k v where p: "p = (k, v)" by (cases p)
  show ?case
    unfolding p append_Cons flatten_fields_Cons
    by (simp add: Cons.IH split: sum.splits)
qed

lemma field_entry_distinct:
  assumes "field_entry str k v prefix devtype = Inr (nd, ng)"
  shows "distinct (map fst nd)"
proof (cases v)
  case (JArr xs)
  with assms have "flatten_elems str xs 0 (prefix @ k @ ''.'') devtype [] [] = Inr (nd, ng)"
    by (simp add: field_entry_def)
  then show ?thesis by (rule flatten_distinct(3) [rotated]) simp
next
  case (JObj x)
  with assms have "flatten str v (prefix @ k @ ''.'') devtype = Inr (nd, ng)"
    by (simp add: field_entry_def)
  then show ?thesis by (rule flatten_distinct(1))
qed (use assms in \<open>simp_all add: field_entry_def scalar_entry_data(1)\<close>)

lemma flatten_fields_keeps:
  "distinct (map fst result) \<Longrightarrow> flatten_fields str fs prefix devtype result guide = Inr (r, g)
     \<Longrightarrow> map_of result x = Some y \<Longrightarrow> map_of r x = Some y"
proof (induction fs arbitrary: result guide)
  case Nil
  then show ?case by simp
next
  case (Cons p fs)
  obtain k v where p: "p = (k, v)" by (cases p)
  from Cons.prems(2) obtain nd ng where e: "field_entry str k v prefix devtype = Inr (nd, ng)"
    and f: "flatten_fields str fs prefix devtype (dict_update nd result) (deep_update ng guide)
              = Inr (r, g)"
    unfolding p flatten_fields_Cons by (auto split: sum.splits)
  from e have "distinct (map fst nd)" by (rule field_entry_distinct)
  then have d: "distinct (map fst (dict_update nd result))" by (rule distinct_dict_update)
  have "map_of (dict_update nd result) x = Some y"
    using Cons.prems(3) by (simp add: map_of_dict_update [OF Cons.prems(1)])
  with d f show ?case by (rule Cons.IH)
qed

text \<open>The leaves filed under a key, and the entries of the flat map under it.\<close>

lemma filed_under_stored:
  "(x, y) \<in> stored str leaves \<longleftrightarrow> (\<exists>(q, v) \<in> set (filed_under x leaves). y = str v)"
  by (auto simp add: stored_def filed_under_def)

lemma filed_under_empty: "filed_under x leaves = [] \<longleftrightarrow> x \<notin> fst ` stored str leaves"
  by (auto simp add: stored_def filed_under_def filter_empty_conv image_iff) force

text \<open>
  C9, as the code has it. Among the fields of a dict the first one to bring a key keeps it.
  For a record with a field \<open>k\<close> that is neither a dict nor a list: when no leaf of the
  fields before it is filed under \<open>k\<close>, the flat map holds the string of that field under
  \<open>k\<close>; when one is, the flat map holds the string of such an earlier leaf, a nested
  one for instance, and not the one of the field at the top.
\<close>

theorem flatten_first_seen_wins:
  assumes "flatten str (JObj (pre @ (k, v) # post)) [] devtype = Inr (r, g)"
    and "py_type v \<noteq> TDict" and "py_type v \<noteq> TList"
  shows "(filed_under k (record_leaves pre []) = [] \<longrightarrow> map_of r k = Some (str v))
       \<and> (filed_under k (record_leaves pre []) \<noteq> [] \<longrightarrow>
            (\<exists>(q, v') \<in> set (filed_under k (record_leaves pre [])). map_of r k = Some (str v')))"
proof -
  from assms(1) obtain dt where
    "flatten_fields str (pre @ (k, v) # post) [] dt [] [] = Inr (r, g)"
    by (auto split: sum.splits)
  then obtain r0 g0 where pre: "flatten_fields str pre [] dt [] [] = Inr (r0, g0)"
    and rest: "flatten_fields str ((k, v) # post) [] dt r0 g0 = Inr (r, g)"
    unfolding flatten_fields_append by (auto split: sum.splits)
  from rest obtain nd ng where e: "field_entry str k v [] dt = Inr (nd, ng)"
    and post: "flatten_fields str post [] dt (dict_update nd r0) (deep_update ng g0) = Inr (r, g)"
    unfolding flatten_fields_Cons by (auto split: sum.splits)
  from e assms(2,3) have s: "scalar_entry str k v [] dt = Inr (nd, ng)"
    by (cases v) (simp_all add: field_entry_def)
  have p: "[] = prefix_of []" by (simp add: prefix_of_def)
  have d0: "distinct (map fst r0)"
    by (rule flatten_distinct(2) [OF _ pre]) simp
  have d1: "distinct (map fst (dict_update nd r0))"
    using scalar_entry_data(1) [OF s] by (rule distinct_dict_update)
  have first: "map_of (dict_update nd r0) k
                 = (case map_of r0 k of Some y \<Rightarrow> Some y | None \<Rightarrow> Some (str v))"
    using scalar_entry_data(2) [OF s, of k]
    by (simp add: map_of_dict_update [OF d0] split: option.splits)
  have keep: "map_of r k = map_of (dict_update nd r0) k"
  proof -
    from first obtain y where y: "map_of (dict_update nd r0) k = Some y"
      by (cases "map_of r0 k") simp_all
    from flatten_fields_keeps [OF d1 post y] y show ?thesis by simp
  qed
  have dom0: "fst ` set r0 = fst ` stored str (record_leaves pre [])"
    using flatten_data_complete(2) [OF p pre] by simp
  have sub0: "set r0 \<subseteq> stored str (record_leaves pre [])"
    using flatten_data_sound(2) [OF p pre] by simp
  show ?thesis
  proof (intro conjI impI)
    assume "filed_under k (record_leaves pre []) = []"
    then have "k \<notin> fst ` set r0" by (simp add: dom0 filed_under_empty [of _ _ str])
    then have "map_of r0 k = None" by (simp add: map_of_eq_None_iff)
    with keep first show "map_of r k = Some (str v)" by simp
  next
    assume "filed_under k (record_leaves pre []) \<noteq> []"
    then have "k \<in> fst ` set r0" by (simp add: dom0 filed_under_empty [of _ _ str])
    then obtain y where y: "map_of r0 k = Some y"
      by (cases "map_of r0 k") (simp_all add: map_of_eq_None_iff)
    then have "(k, y) \<in> set r0" by (rule map_of_SomeD)
    with sub0 have "(k, y) \<in> stored str (record_leaves pre [])" by (rule subsetD)
    then obtain q v' where "(q, v') \<in> set (filed_under k (record_leaves pre []))" "y = str v'"
      unfolding filed_under_stored by auto
    moreover from keep first y have "map_of r k = Some y" by simp
    ultimately show "\<exists>(q, v') \<in> set (filed_under k (record_leaves pre [])). map_of r k = Some (str v')"
      by auto
  qed
qed

text \<open>
  Two records with a field \<open>b\<close> at the top and a leaf \<open>b\<close> inside a dict: the dict
  comes after the field in the first, and before it in the second.
\<close>

definition top_first :: json where
  "top_first = JObj ([(''a'', JInt 5)] @ (''b'', JInt 2) # [(''c'', JObj [(''b'', JInt 1)])])"

definition nested_first :: json where
  "nested_first = JObj ([(''a'', JObj [(''b'', JInt 1)])] @ (''b'', JInt 2) # [])"

lemma str_nat_digit: "n < 10 \<Longrightarrow> str_nat n = [''0123456789'' ! n]"
  by (simp add: str_nat.simps)

lemma index_to_n_plain:
  "index_to_n ''a'' = ''a''" "index_to_n ''b'' = ''b''" "index_to_n ''a.b'' = ''a.b''"
  "index_to_n ''c.b'' = ''c.b''"
  by (simp_all add: is_digit_def)

lemma flatten_top_first:
  "flatten py_str top_first [] JNull
     = Inr ([(''b'', ''2''), (''c.b'', ''1''), (''a'', ''5'')],
            [(''b'', [(JNull, ''b'')]), (''c.b'', [(JNull, ''c.b'')]), (''a'', [(JNull, ''a'')])])"
  by (simp add: top_first_def devtype_of_def scalar_entry_def Let_def str_nat_digit index_to_n_plain
        dict_update_def deep_update_def coverage_update_def py_key_eq_def)

lemma flatten_nested_first:
  "flatten py_str nested_first [] JNull
     = Inr ([(''b'', ''1''), (''a.b'', ''1'')],
            [(''b'', [(JNull, ''a.b'')]), (''a.b'', [(JNull, ''a.b'')])])"
  by (simp add: nested_first_def devtype_of_def scalar_entry_def Let_def str_nat_digit
        index_to_n_plain dict_update_def deep_update_def coverage_update_def py_key_eq_def)

lemma filed_under_examples:
  "filed_under ''b'' (record_leaves [(''a'', JInt 5)] []) = []"
  "filed_under ''b'' (record_leaves [(''a'', JObj [(''b'', JInt 1)])] [])
     = [([Key ''a'', Key ''b''], JInt 1)]"
  by (simp_all add: filed_under_def leaf_keys_def dotted_def)

theorem flatten_first_seen_wins_witness:
  "flatten py_str top_first [] JNull
     = Inr ([(''b'', ''2''), (''c.b'', ''1''), (''a'', ''5'')],
            [(''b'', [(JNull, ''b'')]), (''c.b'', [(JNull, ''c.b'')]), (''a'', [(JNull, ''a'')])])
   \<and> filed_under ''b'' (record_leaves [(''a'', JInt 5)] []) = []
   \<and> map_of [(''b'', ''2''), (''c.b'', ''1''), (''a'', ''5'')] ''b'' = Some (py_str (JInt 2))
   \<and> flatten py_str nested_first [] JNull
     = Inr ([(''b'', ''1''), (''a.b'', ''1'')],
            [(''b'', [(JNull, ''a.b'')]), (''a.b'', [(JNull, ''a.b'')])])
   \<and> filed_under ''b'' (record_leaves [(''a'', JObj [(''b'', JInt 1)])] [])
       = [([Key ''a'', Key ''b''], JInt 1)]
   \<and> map_of [(''b'', ''1''), (''a.b'', ''1'')] ''b'' = Some (py_str (JInt 1))"
  using flatten_first_seen_wins [of py_str "[(''a'', JInt 5)]" "''b''" "JInt 2"
          "[(''c'', JObj [(''b'', JInt 1)])]" JNull
          "[(''b'', ''2''), (''c.b'', ''1''), (''a'', ''5'')]"
          "[(''b'', [(JNull, ''b'')]), (''c.b'', [(JNull, ''c.b'')]), (''a'', [(JNull, ''a'')])]"]
        flatten_first_seen_wins [of py_str "[(''a'', JObj [(''b'', JInt 1)])]" "''b''" "JInt 2"
          "[]" JNull "[(''b'', ''1''), (''a.b'', ''1'')]"
          "[(''b'', [(JNull, ''a.b'')]), (''a.b'', [(JNull, ''a.b'')])]"]
        flatten_top_first flatten_nested_first filed_under_examples
  by (simp add: top_first_def nested_first_def)

text \<open>
  The claim fails for a nested leaf that comes first. In \<^verbatim>\<open>{"a": {"b": 1}, "b": 2}\<close> the
  field \<open>b\<close> at the top is a scalar and the leaf \<open>a.b\<close> has the same name; the flat map
  holds \<open>1\<close> under \<open>b\<close>, the nested value, and \<open>2\<close> is nowhere in it.
\<close>

theorem flatten_nested_first_counterexample:
  "flatten py_str (JObj [(''a'', JObj [(''b'', JInt 1)]), (''b'', JInt 2)]) [] JNull
     = Inr ([(''b'', ''1''), (''a.b'', ''1'')],
            [(''b'', [(JNull, ''a.b'')]), (''a.b'', [(JNull, ''a.b'')])])
   \<and> map_of [(''b'', ''1''), (''a.b'', ''1'')] ''b'' = Some (py_str (JInt 1))
   \<and> map_of [(''b'', ''1''), (''a.b'', ''1'')] ''b'' \<noteq> Some (py_str (JInt 2))"
  using flatten_nested_first by (simp add: nested_first_def str_nat_digit)

lemma str_nat_0: "str_nat 0 = ''0''"
  by (simp add: str_nat.simps)

section \<open>Properties of the guide\<close>

lemma noted_simps:
  "noted [] = {}"
  "noted (a @ b) = noted a \<union> noted b"
  "noted [(q, v)] = (\<lambda>x. (x, guide_form q)) ` set (leaf_keys q)"
  by (simp_all add: noted_def)

lemma guide_pairs_Nil: "guide_pairs [] = {}"
  by (simp add: guide_pairs_def)

lemma guide_pairs_mono: "set a \<subseteq> set b \<Longrightarrow> guide_pairs a \<subseteq> guide_pairs b"
  unfolding guide_pairs_def by blast

lemma guide_pairs_iff:
  "(x, pk) \<in> guide_pairs g \<longleftrightarrow> (\<exists>cov t. (x, cov) \<in> set g \<and> (t, pk) \<in> set cov)"
  by (simp add: guide_pairs_def)

lemma guide_pairs_insert:
  assumes "set a \<subseteq> insert (k, c) (set b)"
  shows "guide_pairs a \<subseteq> guide_pairs b \<union> (\<lambda>pk. (k, pk)) ` snd ` set c"
proof
  fix z
  assume z: "z \<in> guide_pairs a"
  obtain x pk where xp: "z = (x, pk)" by (cases z)
  from z obtain cov t where cov: "(x, cov) \<in> set a" and t: "(t, pk) \<in> set cov"
    unfolding xp guide_pairs_iff by auto
  from cov assms have "(x, cov) = (k, c) \<or> (x, cov) \<in> set b" by auto
  then show "z \<in> guide_pairs b \<union> (\<lambda>pk. (k, pk)) ` snd ` set c"
  proof
    assume "(x, cov) = (k, c)"
    with t have "x = k" and "pk \<in> snd ` set c" by force+
    then show ?thesis by (simp add: xp)
  next
    assume "(x, cov) \<in> set b"
    with t have "(x, pk) \<in> guide_pairs b" unfolding guide_pairs_iff by auto
    then show ?thesis by (simp add: xp)
  qed
qed

lemma guide_pairs_Un:
  assumes "set a \<subseteq> set b \<union> set c"
  shows "guide_pairs a \<subseteq> guide_pairs b \<union> guide_pairs c"
proof
  fix z
  assume z: "z \<in> guide_pairs a"
  obtain x pk where xp: "z = (x, pk)" by (cases z)
  from z obtain cov t where cov: "(x, cov) \<in> set a" and t: "(t, pk) \<in> set cov"
    unfolding xp guide_pairs_iff by auto
  from cov assms have "(x, cov) \<in> set b \<or> (x, cov) \<in> set c" by auto
  with t have "(x, pk) \<in> guide_pairs b \<or> (x, pk) \<in> guide_pairs c"
    unfolding guide_pairs_iff by auto
  then show "z \<in> guide_pairs b \<union> guide_pairs c" by (simp add: xp)
qed

lemma key_update_paths:
  "snd ` set (key_update t pk c) \<subseteq> insert pk (snd ` set c)" "key_update t pk c \<noteq> []"
  by (induction c) auto

lemma coverage_update_paths:
  "snd ` set (coverage_update a b) \<subseteq> snd ` set a \<union> snd ` set b"
proof (induction b arbitrary: a)
  case Nil
  then show ?case by (simp add: coverage_update_def)
next
  case (Cons p b)
  obtain t pk where p: "p = (t, pk)" by (cases p)
  have "snd ` set (coverage_update a (p # b)) = snd ` set (coverage_update (key_update t pk a) b)"
    by (simp add: coverage_update_def p)
  also have "\<dots> \<subseteq> snd ` set (key_update t pk a) \<union> snd ` set b" by (rule Cons.IH)
  also have "\<dots> \<subseteq> snd ` set a \<union> snd ` set (p # b)"
    using key_update_paths(1) [of t pk a] by (auto simp add: p)
  finally show ?case .
qed

lemma coverage_update_nonempty: "a \<noteq> [] \<or> b \<noteq> [] \<Longrightarrow> coverage_update a b \<noteq> []"
proof (induction b arbitrary: a)
  case Nil
  then show ?case by (simp add: coverage_update_def)
next
  case (Cons p b)
  obtain t pk where p: "p = (t, pk)" by (cases p)
  have "coverage_update a (p # b) = coverage_update (key_update t pk a) b"
    by (simp add: coverage_update_def p)
  moreover have "coverage_update (key_update t pk a) b \<noteq> []"
    by (rule Cons.IH) (simp add: key_update_paths(2))
  ultimately show ?case by simp
qed

lemma deep_update_Nil: "deep_update d [] = d"
  by (simp add: deep_update_def)

lemma deep_update_Cons:
  "deep_update d ((k, v) # u) =
     deep_update (AList.update k (coverage_update (case map_of d k of None \<Rightarrow> [] | Some c \<Rightarrow> c) v) d) u"
  by (simp add: deep_update_def)

lemma covered_update: "covered d \<Longrightarrow> c \<noteq> [] \<Longrightarrow> covered (AList.update k c d)"
  using set_update_subset [of k c d] by (auto simp add: covered_def)

lemma lookup_paths:
  "(\<lambda>pk. (k, pk)) ` snd ` set (case map_of d k of None \<Rightarrow> [] | Some c \<Rightarrow> c) \<subseteq> guide_pairs d"
proof (cases "map_of d k")
  case None
  then show ?thesis by simp
next
  case (Some c)
  then have kc: "(k, c) \<in> set d" by (rule map_of_SomeD)
  show ?thesis
  proof
    fix z
    assume "z \<in> (\<lambda>pk. (k, pk)) ` snd ` set (case map_of d k of None \<Rightarrow> [] | Some c \<Rightarrow> c)"
    then obtain t pk where "z = (k, pk)" "(t, pk) \<in> set c" by (auto simp add: Some)
    with kc show "z \<in> guide_pairs d" by (auto simp add: guide_pairs_iff)
  qed
qed

lemma deep_update_step:
  "guide_pairs (AList.update k (coverage_update (case map_of d k of None \<Rightarrow> [] | Some c \<Rightarrow> c) v) d)
     \<subseteq> guide_pairs d \<union> guide_pairs ((k, v) # u)"
proof -
  let ?c = "coverage_update (case map_of d k of None \<Rightarrow> [] | Some c \<Rightarrow> c) v"
  have 1: "guide_pairs (AList.update k ?c d) \<subseteq> guide_pairs d \<union> (\<lambda>pk. (k, pk)) ` snd ` set ?c"
    by (rule guide_pairs_insert) (rule set_update_subset)
  have 2: "(\<lambda>pk. (k, pk)) ` snd ` set ?c \<subseteq> guide_pairs d \<union> guide_pairs ((k, v) # u)"
  proof
    fix z
    assume "z \<in> (\<lambda>pk. (k, pk)) ` snd ` set ?c"
    then obtain pk where z: "z = (k, pk)" and "pk \<in> snd ` set ?c" by auto
    with coverage_update_paths [of "case map_of d k of None \<Rightarrow> [] | Some c \<Rightarrow> c" v]
    have "pk \<in> snd ` set (case map_of d k of None \<Rightarrow> [] | Some c \<Rightarrow> c) \<or> pk \<in> snd ` set v"
      by auto
    then show "z \<in> guide_pairs d \<union> guide_pairs ((k, v) # u)"
    proof
      assume "pk \<in> snd ` set (case map_of d k of None \<Rightarrow> [] | Some c \<Rightarrow> c)"
      then have "z \<in> (\<lambda>pk. (k, pk)) ` snd ` set (case map_of d k of None \<Rightarrow> [] | Some c \<Rightarrow> c)"
        by (simp add: z)
      with lookup_paths [of k d] show ?thesis by auto
    next
      assume "pk \<in> snd ` set v"
      then obtain t where "(t, pk) \<in> set v" by auto
      then have "(k, pk) \<in> guide_pairs ((k, v) # u)" by (auto simp add: guide_pairs_iff)
      then show ?thesis by (simp add: z)
    qed
  qed
  from 1 2 show ?thesis by (rule order_trans [OF _ Un_least [OF Un_upper1]])
qed

lemma deep_update_pairs:
  "guide_pairs (deep_update d u) \<subseteq> guide_pairs d \<union> guide_pairs u"
proof (induction u arbitrary: d)
  case Nil
  show ?case by (simp add: deep_update_Nil)
next
  case (Cons p u)
  obtain k v where p: "p = (k, v)" by (cases p)
  let ?d = "AList.update k (coverage_update (case map_of d k of None \<Rightarrow> [] | Some c \<Rightarrow> c) v) d"
  have "guide_pairs (deep_update d (p # u)) \<subseteq> guide_pairs ?d \<union> guide_pairs u"
    unfolding p deep_update_Cons by (rule Cons.IH)
  also have "\<dots> \<subseteq> guide_pairs d \<union> guide_pairs (p # u)"
    using deep_update_step [of k d v u] guide_pairs_mono [of u "p # u"] by (auto simp add: p)
  finally show ?case .
qed

lemma deep_update_dom:
  "fst ` set (deep_update d u) = fst ` set d \<union> fst ` set u"
proof (induction u arbitrary: d)
  case Nil
  show ?case by (simp add: deep_update_Nil)
next
  case (Cons p u)
  obtain k v where p: "p = (k, v)" by (cases p)
  let ?d = "AList.update k (coverage_update (case map_of d k of None \<Rightarrow> [] | Some c \<Rightarrow> c) v) d"
  have "fst ` set (deep_update d (p # u)) = fst ` set ?d \<union> fst ` set u"
    unfolding p deep_update_Cons by (rule Cons.IH)
  also have "\<dots> = fst ` set d \<union> fst ` set (p # u)"
    by (auto simp add: p dom_update)
  finally show ?case .
qed

lemma deep_update_covered:
  "covered d \<Longrightarrow> covered u \<Longrightarrow> covered (deep_update d u)"
proof (induction u arbitrary: d)
  case Nil
  then show ?case by (simp add: deep_update_Nil)
next
  case (Cons p u)
  obtain k v where p: "p = (k, v)" by (cases p)
  let ?c = "coverage_update (case map_of d k of None \<Rightarrow> [] | Some c \<Rightarrow> c) v"
  from Cons.prems(2) have v: "v \<noteq> []" and u: "covered u" by (simp_all add: covered_def p)
  from v have "?c \<noteq> []" by (simp add: coverage_update_nonempty)
  with Cons.prems(1) have "covered (AList.update k ?c d)" by (rule covered_update)
  then show ?case unfolding p deep_update_Cons using u by (rule Cons.IH)
qed

lemmas deep_update_rel = deep_update_pairs deep_update_dom deep_update_covered

lemma dict_update_rel:
  "guide_pairs (dict_update a b) \<subseteq> guide_pairs a \<union> guide_pairs b"
  "covered a \<Longrightarrow> covered b \<Longrightarrow> covered (dict_update a b)"
proof -
  show "guide_pairs (dict_update a b) \<subseteq> guide_pairs a \<union> guide_pairs b"
    by (rule guide_pairs_Un) (rule set_dict_update)
  show "covered a \<Longrightarrow> covered b \<Longrightarrow> covered (dict_update a b)"
    using set_dict_update [of a b] by (auto simp add: covered_def)
qed

lemma guide_rel_refl: "guide_rel g g {}"
  by (simp add: guide_rel_def)

lemma guide_rel_deep:
  assumes "guide_rel ng [] N1" and "guide_rel g (deep_update ng guide) N2"
  shows "guide_rel g guide (N1 \<union> N2)"
proof -
  from assms(1) have n1: "guide_pairs ng \<subseteq> N1" and n2: "fst ` set ng = fst ` N1" and n3: "covered ng"
    by (simp_all add: guide_rel_def guide_pairs_Nil covered_def)
  from assms(2) have g1: "guide_pairs g \<subseteq> guide_pairs (deep_update ng guide) \<union> N2"
    and g2: "fst ` set g = fst ` set (deep_update ng guide) \<union> fst ` N2"
    and g3: "covered (deep_update ng guide) \<longrightarrow> covered g"
    by (simp_all add: guide_rel_def)
  have "guide_pairs g \<subseteq> guide_pairs guide \<union> (N1 \<union> N2)"
    using g1 n1 deep_update_rel(1) [of ng guide] by blast
  moreover have "fst ` set g = fst ` set guide \<union> fst ` (N1 \<union> N2)"
    unfolding g2 deep_update_rel(2) n2 by auto
  moreover have "covered guide \<longrightarrow> covered g"
    using g3 n3 deep_update_rel(3) [of ng guide] by blast
  ultimately show ?thesis by (simp add: guide_rel_def)
qed

lemma guide_rel_dict:
  assumes "guide_rel tg [] N1" and "guide_rel g (dict_update new_guide tg) N2"
  shows "guide_rel g new_guide (N1 \<union> N2)"
proof -
  from assms(1) have n1: "guide_pairs tg \<subseteq> N1" and n2: "fst ` set tg = fst ` N1" and n3: "covered tg"
    by (simp_all add: guide_rel_def guide_pairs_Nil covered_def)
  from assms(2) have g1: "guide_pairs g \<subseteq> guide_pairs (dict_update new_guide tg) \<union> N2"
    and g2: "fst ` set g = fst ` set (dict_update new_guide tg) \<union> fst ` N2"
    and g3: "covered (dict_update new_guide tg) \<longrightarrow> covered g"
    by (simp_all add: guide_rel_def)
  have "guide_pairs g \<subseteq> guide_pairs new_guide \<union> (N1 \<union> N2)"
    using g1 n1 dict_update_rel(1) [of new_guide tg] by blast
  moreover have "fst ` set g = fst ` set new_guide \<union> fst ` (N1 \<union> N2)"
    unfolding g2 dom_dict_update n2 by auto
  moreover have "covered new_guide \<longrightarrow> covered g"
    using g3 n3 dict_update_rel(2) [of new_guide tg] by blast
  ultimately show ?thesis by (simp add: guide_rel_def)
qed

lemma scalar_entry_guide:
  assumes "scalar_entry str k v prefix devtype = Inr (nd, ng)"
  shows "guide_rel ng [] ((\<lambda>x. (x, index_to_n (prefix @ k))) ` {k, prefix @ k})"
proof -
  let ?pk = "index_to_n (prefix @ k)"
  let ?c = "key_update devtype ?pk
              (case map_of [(k, [(devtype, ?pk)])] (prefix @ k) of None \<Rightarrow> [] | Some c \<Rightarrow> c)"
  from assms have ng: "ng = AList.update (prefix @ k) ?c [(k, [(devtype, ?pk)])]"
    by (simp add: scalar_entry_def Let_def split: if_splits)
  have c: "snd ` set ?c \<subseteq> {?pk}" "?c \<noteq> []"
    using key_update_paths [of devtype ?pk
            "case map_of [(k, [(devtype, ?pk)])] (prefix @ k) of None \<Rightarrow> [] | Some c \<Rightarrow> c"]
    by (auto split: if_splits)
  have "guide_pairs ng \<subseteq> guide_pairs [(k, [(devtype, ?pk)])] \<union> (\<lambda>pk. (prefix @ k, pk)) ` snd ` set ?c"
    unfolding ng by (rule guide_pairs_insert) (rule set_update_subset)
  also have "\<dots> \<subseteq> (\<lambda>x. (x, ?pk)) ` {k, prefix @ k}"
    using c(1) by (auto simp add: guide_pairs_def)
  finally have 1: "guide_pairs ng \<subseteq> (\<lambda>x. (x, ?pk)) ` {k, prefix @ k}" .
  have 2: "fst ` set ng = fst ` (\<lambda>x. (x, ?pk)) ` {k, prefix @ k}"
    unfolding ng by (auto simp add: dom_update)
  have 3: "covered ng"
    unfolding ng by (rule covered_update) (simp_all add: covered_def c(2))
  from 1 2 3 show ?thesis by (simp add: guide_rel_def guide_pairs_Nil)
qed

lemma leaf_entry_guide:
  assumes "leaf_entry str d prefix devtype = Inr (nd, ng)"
  shows "guide_rel ng [] {(strip_dot prefix, strip_dot (index_to_n prefix))}"
proof -
  from assms have ng: "ng = [(strip_dot prefix, [(devtype, strip_dot (index_to_n prefix))])]"
    by (simp add: leaf_entry_def Let_def split: if_splits)
  show ?thesis unfolding ng by (auto simp add: guide_rel_def guide_pairs_def covered_def)
qed

lemma guide_form_snoc:
  "guide_form (path @ [Key k]) = index_to_n (prefix_of path @ k)"
  "guide_form (path @ [Index i]) = strip_dot (index_to_n (prefix_of (path @ [Index i])))"
  by (simp_all add: guide_form_def dotted_snoc prefix_of_def)

lemma leaf_entry_guide_at:
  assumes "leaf_entry str d (prefix_of (q @ [Index i])) devtype = Inr (r, g)"
  shows "guide_rel g [] (noted [(q @ [Index i], d)])"
  using leaf_entry_guide [OF assms]
  by (simp add: noted_simps leaf_keys_snoc guide_form_snoc strip_dot_prefix_of dotted_snoc)

text \<open>
  The guide holds, under every key a leaf is filed under, paths of leaves filed under that
  key, in the form above, and nothing else.
\<close>

lemma flatten_guide:
  "prefix = prefix_of path \<Longrightarrow> (\<exists>q i. path = q @ [Index i]) \<or> py_type d = TDict
     \<Longrightarrow> flatten str d prefix devtype = Inr (r, g)
     \<Longrightarrow> guide_rel g [] (noted (leaves_below d path))"
  "prefix = prefix_of path \<Longrightarrow> flatten_fields str fs prefix devtype result guide = Inr (r, g)
     \<Longrightarrow> guide_rel g guide (noted (record_leaves fs path))"
  "prefix = prefix_of path
     \<Longrightarrow> flatten_elems str xs i prefix devtype new_data new_guide = Inr (r, g)
     \<Longrightarrow> guide_rel g new_guide (noted (list_leaves xs i path))"
proof (induction str d prefix devtype and str fs prefix devtype result guide
         and str xs i prefix devtype new_data new_guide
       arbitrary: r g path and r g path and r g path
       rule: flatten_flatten_fields_flatten_elems.induct)
  case (1 str d prefix devtype)
  from 1(4) obtain b where b: "(if \<not> py_truthy devtype then devtype_of d else Inr devtype) = Inr b"
    and f: "flatten_fields str d prefix b [] [] = Inr (r, g)"
    by (auto split: sum.splits)
  from 1(1) [OF b 1(2) f] show ?case by simp
next
  case (3 str prefix devtype result guide)
  then show ?case by (simp add: noted_simps guide_rel_refl)
next
  case (4 str k v rest prefix devtype result guide)
  from 4(5) obtain nd ng where e: "field_entry str k v prefix devtype = Inr (nd, ng)"
    and f: "flatten_fields str rest prefix devtype (dict_update nd result) (deep_update ng guide)
              = Inr (r, g)"
    unfolding flatten_fields_Cons by (auto split: sum.splits)
  have p: "prefix @ k @ ''.'' = prefix_of (path @ [Key k])"
    by (simp add: prefix_of_snoc 4(4))
  have ng: "guide_rel ng [] (noted (field_leaves k v path))"
  proof (cases v)
    case (JArr xs)
    with e have "flatten_elems str xs 0 (prefix @ k @ ''.'') devtype [] [] = Inr (nd, ng)"
      by (simp add: field_entry_def)
    from 4(1) [OF JArr p this] show ?thesis by (simp add: field_leaves_def JArr)
  next
    case (JObj x)
    with e have "flatten str v (prefix @ k @ ''.'') devtype = Inr (nd, ng)"
      by (simp add: field_entry_def)
    from 4(2) [OF JObj p _ this] show ?thesis by (simp add: field_leaves_def JObj)
  qed (use e scalar_entry_guide [of str k v prefix devtype nd ng] in
       \<open>simp_all add: field_entry_def field_leaves_def noted_simps leaf_keys_snoc guide_form_snoc 4(4)\<close>)
  from e have e': "(case v of
              JArr xs \<Rightarrow> flatten_elems str xs 0 (prefix @ k @ ''.'') devtype [] []
            | JObj x \<Rightarrow> flatten str v (prefix @ k @ ''.'') devtype
            | _ \<Rightarrow> scalar_entry str k v prefix devtype) = Inr (nd, ng)"
    by (simp add: field_entry_def)
  have "guide_rel g (deep_update ng guide) (noted (record_leaves rest path))"
    by (rule 4(3) [OF e' refl 4(4) f])
  with ng have "guide_rel g guide (noted (field_leaves k v path) \<union> noted (record_leaves rest path))"
    by (rule guide_rel_deep)
  then show ?case unfolding record_leaves_Cons noted_simps .
next
  case (5 str i prefix devtype new_data new_guide)
  then show ?case by (simp add: noted_simps guide_rel_refl)
next
  case (6 str x xs i prefix devtype new_data new_guide)
  from 6(4) obtain td tg where e: "flatten str x (prefix @ str_nat i @ ''.'') devtype = Inr (td, tg)"
    and f: "flatten_elems str xs (Suc i) prefix devtype (dict_update new_data td)
              (dict_update new_guide tg) = Inr (r, g)"
    by (auto split: sum.splits)
  have p: "prefix @ str_nat i @ ''.'' = prefix_of (path @ [Index i])"
    by (simp add: prefix_of_snoc 6(3))
  have tg: "guide_rel tg [] (noted (leaves_below x (path @ [Index i])))"
    by (rule 6(1) [OF p _ e]) simp
  have "guide_rel g (dict_update new_guide tg) (noted (list_leaves xs (Suc i) path))"
    by (rule 6(2) [OF e refl 6(3) f])
  with tg have "guide_rel g new_guide
                  (noted (leaves_below x (path @ [Index i])) \<union> noted (list_leaves xs (Suc i) path))"
    by (rule guide_rel_dict)
  then show ?case unfolding list_leaves_Cons noted_simps .
qed (auto intro: leaf_entry_guide_at)

section \<open>The substitution of the indices\<close>

lemma not_digit_dot: "\<not> is_digit CHR ''.''"
  by (simp add: is_digit_def)

lemma index_to_n_no_dot: "CHR ''.'' \<notin> set u \<Longrightarrow> index_to_n (u @ w) = u @ index_to_n w"
  by (induction u) auto

lemma index_to_n_dot: "index_to_n ''.'' = ''.''"
  by simp

lemma index_to_n_index:
  assumes "ds \<noteq> []" and "\<forall>c \<in> set ds. is_digit c"
  shows "index_to_n (CHR ''.'' # ds @ CHR ''.'' # w) = ''.[n].'' @ index_to_n w"
proof -
  from assms(2) have t: "takeWhile is_digit (ds @ CHR ''.'' # w) = ds"
    by (simp add: takeWhile_append2 not_digit_dot)
  from assms(2) have d: "dropWhile is_digit (ds @ CHR ''.'' # w) = CHR ''.'' # w"
    by (simp add: dropWhile_append2 not_digit_dot)
  show ?thesis
    by (simp add: t d assms(1))
qed

lemma index_to_n_key:
  assumes "plain_key k" and "w = [] \<or> hd w = CHR ''.''"
  shows "index_to_n (CHR ''.'' # k @ w) = CHR ''.'' # k @ index_to_n w"
proof -
  from assms(1) have nodot: "CHR ''.'' \<notin> set k" by (simp add: plain_key_def)
  have "\<not> (takeWhile is_digit (k @ w) \<noteq> [] \<and> startswith (dropWhile is_digit (k @ w)) ''.'')"
  proof (cases "\<exists>c \<in> set k. \<not> is_digit c")
    case True
    then obtain c where c: "c \<in> set k" "\<not> is_digit c" by auto
    then have d: "dropWhile is_digit (k @ w) = dropWhile is_digit k @ w"
      by (rule dropWhile_append1)
    from c have "dropWhile is_digit k \<noteq> []" by (auto simp add: dropWhile_eq_Nil_conv)
    then obtain x xs where x: "dropWhile is_digit k = x # xs" by (cases "dropWhile is_digit k") auto
    then have "x \<in> set (dropWhile is_digit k)" by simp
    then have "x \<in> set k" by (rule set_dropWhileD)
    with nodot have "x \<noteq> CHR ''.''" by auto
    then show ?thesis by (simp add: d x)
  next
    case False
    with assms(1) have k: "k = []" by (auto simp add: plain_key_def)
    from assms(2) have "takeWhile is_digit w = []"
      by (cases w) (auto simp add: not_digit_dot)
    then show ?thesis by (simp add: k)
  qed
  then have "index_to_n (CHR ''.'' # k @ w) = CHR ''.'' # index_to_n (k @ w)"
    by auto
  also have "\<dots> = CHR ''.'' # k @ index_to_n w"
    by (simp add: index_to_n_no_dot [OF nodot])
  finally show ?thesis .
qed

lemma digit_nth: "m < 10 \<Longrightarrow> is_digit (''0123456789'' ! m)"
  unfolding is_digit_def by (rule nth_mem) simp

lemma str_nat_digits: "str_nat i \<noteq> [] \<and> (\<forall>c \<in> set (str_nat i). is_digit c)"
proof (induction i rule: str_nat.induct)
  case (1 n)
  show ?case
  proof (cases "n < 10")
    case True
    then show ?thesis by (subst (1 2) str_nat.simps) (simp add: digit_nth)
  next
    case False
    with 1 have "\<forall>c \<in> set (str_nat (n div 10)). is_digit c" by simp
    then show ?thesis using False by (subst (1 2) str_nat.simps) (simp add: digit_nth)
  qed
qed

lemma join_dots: "join ''.'' (map f (s # rest)) = f s @ dots f rest"
proof (induction rest arbitrary: s)
  case Nil
  then show ?case by (simp add: dots_def)
next
  case (Cons t rest)
  have "join ''.'' (map f (s # t # rest)) = f s @ ''.'' @ join ''.'' (map f (t # rest))" by simp
  also have "\<dots> = f s @ dots f (t # rest)"
    using Cons.IH [of t] by (simp add: dots_def)
  finally show ?case .
qed

lemma dots_simps:
  "dots f [] = []" "dots f (s # rest) = CHR ''.'' # f s @ dots f rest"
  by (simp_all add: dots_def)

text \<open>
  Behind a key, with plain keys and no index after an index, the substitution turns every
  index into \<^verbatim>\<open>[n]\<close> and leaves the keys: up to the end of the path when a dot follows
  it, or when the path ends in a key.
\<close>

lemma index_to_n_dots:
  "spaced rest \<Longrightarrow> \<forall>s \<in> set rest. plain_seg s
     \<Longrightarrow> tail = ''.'' \<or> (tail = [] \<and> (rest = [] \<or> (\<exists>k. last rest = Key k)))
     \<Longrightarrow> index_to_n (dots seg_str rest @ tail) = dots seg_wild rest @ tail"
proof (induction rest)
  case Nil
  then show ?case by (auto simp add: dots_simps)
next
  case (Cons s rest)
  have tail: "tail = ''.'' \<or> (tail = [] \<and> (rest = [] \<or> (\<exists>k. last rest = Key k)))"
    if "rest \<noteq> [] \<or> (\<exists>k. s = Key k)"
    using Cons.prems(3) that by (cases "rest = []") auto
  have w: "dots seg_str rest @ tail = [] \<or> hd (dots seg_str rest @ tail) = CHR ''.''"
    using Cons.prems(3) by (cases rest) (auto simp add: dots_simps)
  show ?case
  proof (cases s)
    case (Key k)
    from Cons.prems(1) have sp: "spaced rest" by (simp add: Key)
    from Cons.prems(2) have pl: "\<forall>s \<in> set rest. plain_seg s" and k: "plain_key k"
      by (simp_all add: Key)
    have ih: "index_to_n (dots seg_str rest @ tail) = dots seg_wild rest @ tail"
      by (rule Cons.IH [OF sp pl]) (rule tail, simp add: Key)
    show ?thesis
      using index_to_n_key [OF k w] by (simp add: Key dots_simps ih)
  next
    case (Index i)
    note digits = str_nat_digits [of i]
    show ?thesis
    proof (cases rest)
      case Nil
      with Cons.prems(3) have t: "tail = ''.''" by (simp add: Index)
      show ?thesis
        using index_to_n_index [of "str_nat i" "[]"] digits
        by (simp add: Index Nil dots_simps t)
    next
      case (Cons s' rest')
      with Cons.prems(1) obtain k where s': "s' = Key k"
        by (cases s') (simp_all add: Index)
      from Cons.prems(1) have sp: "spaced rest" by (simp add: Index Cons s')
      from Cons.prems(2) have pl: "\<forall>s \<in> set rest. plain_seg s" by simp
      from pl have k: "plain_key k" by (simp add: Cons s')
      then have nodot: "CHR ''.'' \<notin> set k" by (simp add: plain_key_def)
      have "index_to_n (dots seg_str rest @ tail) = dots seg_wild rest @ tail"
        by (rule Cons.IH [OF sp pl]) (rule tail, simp add: Cons)
      moreover have w': "dots seg_str rest' @ tail = [] \<or> hd (dots seg_str rest' @ tail) = CHR ''.''"
        using Cons.prems(3) by (cases rest') (auto simp add: dots_simps)
      ultimately have ih: "index_to_n (dots seg_str rest' @ tail) = dots seg_wild rest' @ tail"
        using index_to_n_key [OF k w'] by (simp add: Cons s' dots_simps)
      have "index_to_n (dots seg_str (s # rest) @ tail)
              = index_to_n (CHR ''.'' # str_nat i @ CHR ''.'' # (k @ dots seg_str rest' @ tail))"
        by (simp add: Index Cons s' dots_simps)
      also have "\<dots> = ''.[n].'' @ index_to_n (k @ dots seg_str rest' @ tail)"
        using digits by (intro index_to_n_index) simp_all
      also have "\<dots> = ''.[n].'' @ k @ dots seg_wild rest' @ tail"
        by (simp add: index_to_n_no_dot [OF nodot] ih)
      also have "\<dots> = dots seg_wild (s # rest) @ tail"
        by (simp add: Index Cons s' dots_simps)
      finally show ?thesis .
    qed
  qed
qed

lemma guide_form_wildcard:
  assumes "spaced rest" and "plain_key k" and "\<forall>s \<in> set rest. plain_seg s"
  shows "guide_form (Key k # rest) = wildcard (Key k # rest)"
proof -
  from assms(2) have nodot: "CHR ''.'' \<notin> set k" by (simp add: plain_key_def)
  have d: "dotted (Key k # rest) = k @ dots seg_str rest"
    and w: "wildcard (Key k # rest) = k @ dots seg_wild rest"
    using join_dots [of seg_str "Key k" rest] join_dots [of seg_wild "Key k" rest]
    by (simp_all add: dotted_def wildcard_def)
  show ?thesis
  proof (cases "last (Key k # rest)")
    case (Key k')
    then have "rest = [] \<or> (\<exists>k. last rest = Key k)" by (cases "rest = []") auto
    then have "index_to_n (dots seg_str rest @ []) = dots seg_wild rest @ []"
      by (intro index_to_n_dots [OF assms(1,3)]) simp
    moreover have "guide_form (Key k # rest) = index_to_n (dotted (Key k # rest))"
      unfolding guide_form_def Key by simp
    ultimately show ?thesis
      by (simp add: d w index_to_n_no_dot [OF nodot])
  next
    case (Index i)
    have "index_to_n (dots seg_str rest @ ''.'') = dots seg_wild rest @ ''.''"
      by (intro index_to_n_dots [OF assms(1,3)]) simp
    then have "index_to_n (dotted (Key k # rest) @ ''.'') = (k @ dots seg_wild rest) @ ''.''"
      by (simp add: d index_to_n_no_dot [OF nodot])
    moreover have "guide_form (Key k # rest) = strip_dot (index_to_n (dotted (Key k # rest) @ ''.''))"
      unfolding guide_form_def Index by simp
    ultimately show ?thesis
      by (simp only: w strip_dot_snoc)
  qed
qed

text \<open>The path of a leaf starts below the place of the record, and no index follows an index.\<close>

lemma leaves_spaced:
  "(q, v) \<in> set (record_leaves fs path) \<Longrightarrow> \<exists>k rest. q = path @ Key k # rest \<and> spaced rest"
  "(q, v) \<in> set (list_leaves xs i path)
     \<Longrightarrow> \<exists>j rest. q = path @ Index j # rest \<and> spaced (Index j # rest)"
proof (induction fs path and xs i path arbitrary: q v and q v rule: record_leaves_list_leaves.induct)
  case (1 path)
  then show ?case by simp
next
  case (2 k x rest path)
  from 2(4) have "(q, v) \<in> set (field_leaves k x path) \<or> (q, v) \<in> set (record_leaves rest path)"
    unfolding record_leaves_Cons by simp
  then show ?case
  proof
    assume f: "(q, v) \<in> set (field_leaves k x path)"
    show ?thesis
    proof (cases x)
      case (JArr xs)
      with f have "(q, v) \<in> set (list_leaves xs 0 (path @ [Key k]))" by (simp add: field_leaves_def)
      from 2(1) [OF JArr this] show ?thesis by auto
    next
      case (JObj d)
      with f have "(q, v) \<in> set (record_leaves d (path @ [Key k]))" by (simp add: field_leaves_def)
      from 2(2) [OF JObj this] show ?thesis by auto
    qed (use f in \<open>simp_all add: field_leaves_def\<close>)
  next
    assume "(q, v) \<in> set (record_leaves rest path)"
    then show ?thesis by (rule 2(3))
  qed
next
  case (3 i path)
  then show ?case by simp
next
  case (4 x xs i path)
  from 4(3) have "(q, v) \<in> set (leaves_below x (path @ [Index i]))
      \<or> (q, v) \<in> set (list_leaves xs (Suc i) path)"
    unfolding list_leaves_Cons by simp
  then show ?case
  proof
    assume f: "(q, v) \<in> set (leaves_below x (path @ [Index i]))"
    show ?thesis
    proof (cases x)
      case (JObj d)
      with f have "(q, v) \<in> set (record_leaves d (path @ [Index i]))" by simp
      from 4(1) [OF JObj this] show ?thesis by auto
    qed (use f in simp_all)
  next
    assume "(q, v) \<in> set (list_leaves xs (Suc i) path)"
    then show ?thesis by (rule 4(2))
  qed
qed

section \<open>Leaves under their paths\<close>

lemma filed_under_noted:
  "(x, pk) \<in> noted leaves \<longleftrightarrow> (\<exists>(q, v) \<in> set (filed_under x leaves). pk = guide_form q)"
  by (auto simp add: noted_def filed_under_def)

lemma filed_under_member:
  "(q, v) \<in> set (filed_under x leaves) \<longleftrightarrow> (q, v) \<in> set leaves \<and> x \<in> set (leaf_keys q)"
  by (simp add: filed_under_def)

text \<open>
  C3, as the code has it. A leaf is a field that is neither a dict nor a list, or an element
  of a list that is not a dict (a list inside a list is one leaf). The dotted path of every
  leaf of a record is a key of the flat map and of the guide: the flat map holds under it
  the string of a leaf filed under that key, and the guide holds paths of such leaves. When
  the leaf is the only one filed under its dotted path, these are its own string and its
  own path. When the keys on the path have no dot and are not strings of digits, the path
  in the guide is the wildcard form of the path of the leaf, \<^verbatim>\<open>[n]\<close> for every index
  whatever its value.
\<close>

theorem flatten_leaf_reachable:
  assumes "flatten str (JObj d) [] devtype = Inr (r, g)"
    and "(path, v) \<in> set (record_leaves d [])"
  shows "(\<exists>(q, v') \<in> set (filed_under (dotted path) (record_leaves d [])).
            map_of r (dotted path) = Some (str v'))
       \<and> (\<exists>cov. map_of g (dotted path) = Some cov \<and> cov \<noteq> []
               \<and> snd ` set cov \<subseteq> guide_form ` fst ` set (filed_under (dotted path) (record_leaves d [])))
       \<and> (filed_under (dotted path) (record_leaves d []) = [(path, v)] \<longrightarrow>
            map_of r (dotted path) = Some (str v)
            \<and> (\<exists>cov. map_of g (dotted path) = Some cov \<and> cov \<noteq> []
                    \<and> snd ` set cov = {guide_form path}))
       \<and> ((\<forall>s \<in> set path. plain_seg s) \<longrightarrow> guide_form path = wildcard path)"
proof -
  let ?x = "dotted path"
  let ?leaves = "record_leaves d []"
  let ?filed = "filed_under ?x ?leaves"
  from assms(1) obtain dt where f: "flatten_fields str d [] dt [] [] = Inr (r, g)"
    by (auto split: sum.splits)
  have p: "[] = prefix_of []" by (simp add: prefix_of_def)
  have filed: "(path, v) \<in> set ?filed"
    by (simp add: filed_under_member assms(2) dotted_in_leaf_keys)
  then have nonempty: "?filed \<noteq> []" by auto
  have data: "\<exists>(q, v') \<in> set ?filed. map_of r ?x = Some (str v')"
  proof -
    have sub: "set r \<subseteq> stored str ?leaves"
      using flatten_data_sound(2) [OF p f] by simp
    have dom: "fst ` set r = fst ` stored str ?leaves"
      using flatten_data_complete(2) [OF p f] by simp
    from nonempty have "?x \<in> fst ` set r" by (simp add: dom filed_under_empty [of _ _ str])
    then obtain y where y: "map_of r ?x = Some y"
      by (cases "map_of r ?x") (simp_all add: map_of_eq_None_iff)
    then have "(?x, y) \<in> set r" by (rule map_of_SomeD)
    with sub have "(?x, y) \<in> stored str ?leaves" by (rule subsetD)
    then obtain q v' where "(q, v') \<in> set ?filed" "y = str v'"
      unfolding filed_under_stored by auto
    with y show ?thesis by auto
  qed
  have guide: "\<exists>cov. map_of g ?x = Some cov \<and> cov \<noteq> []
                 \<and> snd ` set cov \<subseteq> guide_form ` fst ` set ?filed"
  proof -
    from flatten_guide(2) [OF p f]
    have sub: "guide_pairs g \<subseteq> noted ?leaves" and dom: "fst ` set g = fst ` noted ?leaves"
      and cov: "covered g"
      by (simp_all add: guide_rel_def guide_pairs_Nil covered_def)
    have "(?x, guide_form path) \<in> noted ?leaves"
      unfolding filed_under_noted by (rule bexI [of _ "(path, v)"]) (simp_all add: filed)
    then have "?x \<in> fst ` noted ?leaves" by (rule image_eqI [rotated]) simp
    then have "?x \<in> fst ` set g" by (simp add: dom)
    then obtain c where c: "map_of g ?x = Some c"
      by (cases "map_of g ?x") (simp_all add: map_of_eq_None_iff)
    then have mem: "(?x, c) \<in> set g" by (rule map_of_SomeD)
    with cov have ne: "c \<noteq> []" by (auto simp add: covered_def)
    have "snd ` set c \<subseteq> guide_form ` fst ` set ?filed"
    proof
      fix pk
      assume "pk \<in> snd ` set c"
      then obtain t where "(t, pk) \<in> set c" by auto
      with mem have "(?x, pk) \<in> guide_pairs g" unfolding guide_pairs_iff by auto
      with sub have "(?x, pk) \<in> noted ?leaves" by (rule subsetD)
      then obtain q v' where "(q, v') \<in> set ?filed" "pk = guide_form q"
        unfolding filed_under_noted by auto
      then show "pk \<in> guide_form ` fst ` set ?filed" by force
    qed
    with c ne show ?thesis by simp
  qed
  have only: "map_of r ?x = Some (str v)
      \<and> (\<exists>cov. map_of g ?x = Some cov \<and> cov \<noteq> [] \<and> snd ` set cov = {guide_form path})"
    if one: "?filed = [(path, v)]"
  proof
    from data show "map_of r ?x = Some (str v)" by (simp add: one)
    from guide obtain c where c: "map_of g ?x = Some c" and ne: "c \<noteq> []"
      and sub: "snd ` set c \<subseteq> {guide_form path}"
      by (auto simp add: one)
    from ne obtain t pk0 ps where "c = (t, pk0) # ps" by (cases c) auto
    then have in_c: "pk0 \<in> snd ` set c" by force
    with sub have "pk0 = guide_form path" by auto
    with in_c have "guide_form path \<in> snd ` set c" by simp
    with sub have "snd ` set c = {guide_form path}" by auto
    with c ne show "\<exists>cov. map_of g ?x = Some cov \<and> cov \<noteq> [] \<and> snd ` set cov = {guide_form path}"
      by simp
  qed
  have form: "guide_form path = wildcard path" if plain: "\<forall>s \<in> set path. plain_seg s"
  proof -
    from leaves_spaced(1) [OF assms(2)] obtain k rest where q: "path = Key k # rest" and "spaced rest"
      by auto
    moreover from plain have "plain_key k" "\<forall>s \<in> set rest. plain_seg s" by (simp_all add: q)
    ultimately show ?thesis unfolding q by (intro guide_form_wildcard)
  qed
  show ?thesis
  proof (intro conjI impI)
    show "\<exists>(q, v') \<in> set ?filed. map_of r ?x = Some (str v')" by (rule data)
    show "\<exists>cov. map_of g ?x = Some cov \<and> cov \<noteq> []
            \<and> snd ` set cov \<subseteq> guide_form ` fst ` set ?filed"
      by (rule guide)
    show "map_of r ?x = Some (str v)" if "?filed = [(path, v)]"
      using only [OF that] by (rule conjunct1)
    show "\<exists>cov. map_of g ?x = Some cov \<and> cov \<noteq> [] \<and> snd ` set cov = {guide_form path}"
      if "?filed = [(path, v)]"
      using only [OF that] by (rule conjunct2)
    show "guide_form path = wildcard path" if "\<forall>s \<in> set path. plain_seg s"
      using that by (rule form)
  qed
qed

text \<open>A record with a list of two dicts, and the first of its leaves.\<close>


definition two_relays :: "(string \<times> json) list" where
  "two_relays = [(''relays'', JArr [JObj [(''name'', JStr ''x'')], JObj [(''name'', JStr ''y'')]])]"


lemma str_nat_1: "str_nat (Suc 0) = ''1''"
  by (simp add: str_nat.simps)


lemma flatten_two_relays:
  "flatten py_str (JObj two_relays) [] JNull
     = Inr ([(''name'', ''y''), (''relays.0.name'', ''x''), (''relays.1.name'', ''y'')],
            [(''name'', [(JNull, ''relays.[n].name'')]),
             (''relays.0.name'', [(JNull, ''relays.[n].name'')]),
             (''relays.1.name'', [(JNull, ''relays.[n].name'')])])"
  by (simp add: two_relays_def devtype_of_def scalar_entry_def Let_def str_nat_0 str_nat_1
        is_digit_def dict_update_def deep_update_def coverage_update_def py_key_eq_def)


lemma leaves_two_relays:
  "record_leaves two_relays []
     = [([Key ''relays'', Index 0, Key ''name''], JStr ''x''),
        ([Key ''relays'', Index (Suc 0), Key ''name''], JStr ''y'')]"
  by (simp add: two_relays_def)


lemma dotted_first_relay:
  "dotted [Key ''relays'', Index 0, Key ''name''] = ''relays.0.name''"
  "dotted [Key ''relays'', Index (Suc 0), Key ''name''] = ''relays.1.name''"
  "wildcard [Key ''relays'', Index 0, Key ''name''] = ''relays.[n].name''"
  by (simp_all add: dotted_def wildcard_def str_nat_0 str_nat_1)


lemma filed_under_first_relay:
  "filed_under ''relays.0.name'' (record_leaves two_relays [])
     = [([Key ''relays'', Index 0, Key ''name''], JStr ''x'')]"
  by (simp add: leaves_two_relays filed_under_def leaf_keys_def dotted_first_relay)


lemma plain_first_relay:
  "plain_key ''relays''" "plain_key ''name''"
  by (simp_all add: plain_key_def is_digit_def)


lemma leaf_first_relay:
  "([Key ''relays'', Index 0, Key ''name''], JStr ''x'') \<in> set (record_leaves two_relays [])"
  by (simp add: leaves_two_relays)

theorem flatten_leaf_reachable_witness:
  "flatten py_str (JObj two_relays) [] JNull
     = Inr ([(''name'', ''y''), (''relays.0.name'', ''x''), (''relays.1.name'', ''y'')],
            [(''name'', [(JNull, ''relays.[n].name'')]),
             (''relays.0.name'', [(JNull, ''relays.[n].name'')]),
             (''relays.1.name'', [(JNull, ''relays.[n].name'')])])
   \<and> ([Key ''relays'', Index 0, Key ''name''], JStr ''x'') \<in> set (record_leaves two_relays [])
   \<and> filed_under ''relays.0.name'' (record_leaves two_relays [])
       = [([Key ''relays'', Index 0, Key ''name''], JStr ''x'')]
   \<and> map_of [(''name'', ''y''), (''relays.0.name'', ''x''), (''relays.1.name'', ''y'')]
        ''relays.0.name'' = Some (py_str (JStr ''x''))
   \<and> plain_key ''relays'' \<and> plain_key ''name''
   \<and> guide_form [Key ''relays'', Index 0, Key ''name''] = ''relays.[n].name''"
proof -
  have p: "\<forall>s \<in> set [Key ''relays'', Index 0, Key ''name'']. plain_seg s"
    by (simp add: plain_first_relay)
  from flatten_leaf_reachable [OF flatten_two_relays leaf_first_relay] p
  have "guide_form [Key ''relays'', Index 0, Key ''name'']
          = wildcard [Key ''relays'', Index 0, Key ''name'']"
    by blast
  then have "guide_form [Key ''relays'', Index 0, Key ''name''] = ''relays.[n].name''"
    by (simp only: dotted_first_relay)
  with flatten_two_relays leaf_first_relay filed_under_first_relay plain_first_relay show ?thesis
    by simp
qed

text \<open>
  The claim fails in two ways. In \<^verbatim>\<open>{"relay": {"name": "x"}, "name": "top"}\<close> the
  field \<open>name\<close> at the top is a leaf with the path \<open>name\<close>, and the flat map holds
  \<open>x\<close> under \<open>name\<close>: the name of the leaf \<open>relay.name\<close>, which came first. In
  \<^verbatim>\<open>{"a": {"5": [{"b": "v"}]}}\<close> the path \<open>a.5.0.b\<close> has the index \<open>0\<close>, and the
  guide holds \<open>a.[n].0.b\<close> for it: the substitution took the key \<open>5\<close> and, with the dot
  behind it used up, passed over the index.
\<close>


theorem flatten_leaf_reachable_counterexample:
  "flatten py_str (JObj [(''relay'', JObj [(''name'', JStr ''x'')]), (''name'', JStr ''top'')]) [] JNull
     = Inr ([(''name'', ''x''), (''relay.name'', ''x'')],
            [(''name'', [(JNull, ''relay.name'')]), (''relay.name'', [(JNull, ''relay.name'')])])
   \<and> ([Key ''name''], JStr ''top'')
       \<in> set (record_leaves [(''relay'', JObj [(''name'', JStr ''x'')]), (''name'', JStr ''top'')] [])
   \<and> dotted [Key ''name''] = ''name''
   \<and> map_of [(''name'', ''x''), (''relay.name'', ''x'')] ''name'' \<noteq> Some (py_str (JStr ''top''))
   \<and> flatten py_str (JObj [(''a'', JObj [(''5'', JArr [JObj [(''b'', JStr ''v'')]])])]) [] JNull
     = Inr ([(''b'', ''v''), (''a.5.0.b'', ''v'')],
            [(''b'', [(JNull, ''a.[n].0.b'')]), (''a.5.0.b'', [(JNull, ''a.[n].0.b'')])])
   \<and> record_leaves [(''a'', JObj [(''5'', JArr [JObj [(''b'', JStr ''v'')]])])] []
       = [([Key ''a'', Key ''5'', Index 0, Key ''b''], JStr ''v'')]
   \<and> dotted [Key ''a'', Key ''5'', Index 0, Key ''b''] = ''a.5.0.b''
   \<and> wildcard [Key ''a'', Key ''5'', Index 0, Key ''b''] = ''a.5.[n].b''
   \<and> map_of [(''b'', [(JNull, ''a.[n].0.b'')]), (''a.5.0.b'', [(JNull, ''a.[n].0.b'')])] ''a.5.0.b''
       = Some [(JNull, ''a.[n].0.b'')]"
  by (simp add: devtype_of_def scalar_entry_def Let_def str_nat_0 is_digit_def dict_update_def
        deep_update_def coverage_update_def py_key_eq_def dotted_def wildcard_def)


text \<open>
  A list inside a list is not gone into: \<^verbatim>\<open>{"a": [[1, 2]]}\<close> has the one key \<open>a.0\<close>,
  with the string of the inner list.
\<close>


lemma flatten_nested_list:
  "flatten str (JObj [(''a'', JArr [JArr [JInt 1, JInt 2]])]) [] JNull
     = Inr ([(''a.0'', str (JArr [JInt 1, JInt 2]))], [(''a.0'', [(JNull, ''a.[n]'')])])"
  by (simp add: devtype_of_def leaf_entry_def Let_def str_nat_0 is_digit_def strip_dot_def
        endswith_def dict_update_def deep_update_def coverage_update_def)

section \<open>Columns of a query: the guide and \<^verbatim>\<open>column_map\<close>\<close>

text \<open>
  The first loop of \<^verbatim>\<open>query\<close>, over the registry \<^verbatim>\<open>device_db\<close>: every entry but
  \<^verbatim>\<open>Format\<close> is flattened (\<^verbatim>\<open>flatten( device_db[ d ] )\<close>, so with the prefix \<^verbatim>\<open>''\<close> and
  the device type \<^verbatim>\<open>None\<close>), \<^verbatim>\<open>guide.update( new_guide )\<close> collects the guides and
  \<^verbatim>\<open>tmp.append( data )\<close> the flat maps.
\<close>

fun query_guide ::
  "(json \<Rightarrow> string) \<Rightarrow> (string \<times> json) list \<Rightarrow> guide \<Rightarrow> string dict list
     \<Rightarrow> error + guide \<times> string dict list" where
  "query_guide str [] guide tmp = Inr (guide, tmp)"
| "query_guide str ((d, rec) # rest) guide tmp =
     (if d = ''Format'' then query_guide str rest guide tmp
      else case flatten str rec [] JNull of
             Inl e \<Rightarrow> Inl e
           | Inr (data, new_guide) \<Rightarrow>
               query_guide str rest (dict_update guide new_guide) (tmp @ [data]))"

text \<open>
  The inner loop \<^verbatim>\<open>for g in guide: if g.endswith( "." + q ): column_map[ q ] = g\<close>, over
  the keys of the guide in their order.
\<close>

fun scan_guide :: "string \<Rightarrow> string list \<Rightarrow> string dict \<Rightarrow> string dict" where
  "scan_guide q [] column_map = column_map"
| "scan_guide q (g # gs) column_map =
     scan_guide q gs (if endswith g (''.'' @ q) then AList.update q g column_map else column_map)"

text \<open>The outer loop \<^verbatim>\<open>for q in query_columns: if q not in guide: ...\<close>\<close>

fun map_columns :: "guide \<Rightarrow> string list \<Rightarrow> string dict \<Rightarrow> string dict" where
  "map_columns guide [] column_map = column_map"
| "map_columns guide (q # qs) column_map =
     map_columns guide qs
       (if map_of guide q = None then scan_guide q (map fst guide) column_map else column_map)"

text \<open>
  \<^verbatim>\<open>column_map = {}\<close>, the loops, and
  \<^verbatim>\<open>query_columns = [ column_map[ q ] if q in column_map else q for q in query_columns ]\<close>.
\<close>

definition resolve_columns :: "guide \<Rightarrow> string list \<Rightarrow> string list" where
  "resolve_columns guide query_columns =
     (let column_map = map_columns guide query_columns []
      in map (\<lambda>q. case map_of column_map q of Some g \<Rightarrow> g | None \<Rightarrow> q) query_columns)"

text \<open>The keys of a guide that end in a dot and the column name, in the order of the guide.\<close>

definition candidates :: "guide \<Rightarrow> string \<Rightarrow> string list" where
  "candidates guide q = filter (\<lambda>g. endswith g (''.'' @ q)) (map fst guide)"

text \<open>
  Two registries. In the first, two devices have a list each, \<open>a\<close> and \<open>b\<close>; in the
  second, two devices have a field \<open>mode\<close> below \<open>sta.ip\<close> and below \<open>ap.ip\<close>.
\<close>

definition db_lists :: "(string \<times> json) list" where
  "db_lists = [(''Format'', JStr ''automagic''),
               (''d1'', JObj [(''a'', JArr [JStr ''x''])]),
               (''d2'', JObj [(''b'', JArr [JStr ''y''])])]"

definition db_modes :: "(string \<times> json) list" where
  "db_modes = [(''Format'', JStr ''automagic''),
               (''d1'', JObj [(''sta'', JObj [(''ip'', JObj [(''mode'', JStr ''dhcp'')])])]),
               (''d2'', JObj [(''ap'', JObj [(''ip'', JObj [(''mode'', JStr ''static'')])])])]"

section \<open>Properties of the column resolution\<close>

text \<open>The inner loop leaves the last matching key under \<open>q\<close>, and nothing else changes.\<close>

lemma scan_guide_lookup:
  "map_of (scan_guide q gs column_map) x =
     (if x = q \<and> filter (\<lambda>g. endswith g (''.'' @ q)) gs \<noteq> []
      then Some (last (filter (\<lambda>g. endswith g (''.'' @ q)) gs))
      else map_of column_map x)"
proof (induction gs arbitrary: column_map)
  case Nil
  then show ?case by simp
next
  case (Cons g gs)
  show ?case
    by (auto simp add: Cons.IH update_conv')
qed

lemma map_columns_lookup:
  "map_of (map_columns guide qs column_map) x =
     (if x \<in> set qs \<and> map_of guide x = None \<and> candidates guide x \<noteq> []
      then Some (last (candidates guide x))
      else map_of column_map x)"
proof (induction qs arbitrary: column_map)
  case Nil
  then show ?case by simp
next
  case (Cons q qs)
  show ?case
    by (auto simp add: Cons.IH scan_guide_lookup candidates_def)
qed

text \<open>
  C2, as the code has it. A column name that is a key of the guide stays as it is. Any other
  name becomes the last key of the guide, in the guide's order, that ends in a dot and the
  name: the only such key when there is one, one of them without a word when there are
  several. With no such key the name stays as it is.
\<close>

theorem column_resolution:
  "resolve_columns guide query_columns =
     map (\<lambda>q. if map_of guide q \<noteq> None then q
              else case candidates guide q of [] \<Rightarrow> q | g # gs \<Rightarrow> last (g # gs))
       query_columns"
  unfolding resolve_columns_def Let_def
  by (rule map_cong [OF refl]) (simp add: map_columns_lookup split: list.splits)

lemma strip_dot_examples:
  "strip_dot ''a.0.'' = ''a.0''" "strip_dot ''b.0.'' = ''b.0''"
  "strip_dot ''a.[n].'' = ''a.[n]''" "strip_dot ''b.[n].'' = ''b.[n]''"
  by (simp_all add: strip_dot_def endswith_def)

lemma flatten_list_a:
  "flatten py_str (JObj [(''a'', JArr [JStr ''x''])]) [] JNull
     = Inr ([(''a.0'', ''x'')], [(''a.0'', [(JNull, ''a.[n]'')])])"
  by (simp add: devtype_of_def leaf_entry_def Let_def str_nat_0 is_digit_def
        strip_dot_examples dict_update_def deep_update_def coverage_update_def)

lemma flatten_list_b:
  "flatten py_str (JObj [(''b'', JArr [JStr ''y''])]) [] JNull
     = Inr ([(''b.0'', ''y'')], [(''b.0'', [(JNull, ''b.[n]'')])])"
  by (simp add: devtype_of_def leaf_entry_def Let_def str_nat_0 is_digit_def
        strip_dot_examples dict_update_def deep_update_def coverage_update_def)

lemma query_guide_lists:
  "query_guide py_str db_lists [] []
     = Inr ([(''a.0'', [(JNull, ''a.[n]'')]), (''b.0'', [(JNull, ''b.[n]'')])],
            [[(''a.0'', ''x'')], [(''b.0'', ''y'')]])"
  by (simp add: db_lists_def flatten_list_a flatten_list_b dict_update_def del: flatten.simps)

lemma flatten_mode_sta:
  "flatten py_str (JObj [(''sta'', JObj [(''ip'', JObj [(''mode'', JStr ''dhcp'')])])]) [] JNull
     = Inr ([(''mode'', ''dhcp''), (''sta.ip.mode'', ''dhcp'')],
            [(''mode'', [(JNull, ''sta.ip.mode'')]), (''sta.ip.mode'', [(JNull, ''sta.ip.mode'')])])"
  by (simp add: devtype_of_def scalar_entry_def Let_def is_digit_def
        dict_update_def deep_update_def coverage_update_def py_key_eq_def)

lemma flatten_mode_ap:
  "flatten py_str (JObj [(''ap'', JObj [(''ip'', JObj [(''mode'', JStr ''static'')])])]) [] JNull
     = Inr ([(''mode'', ''static''), (''ap.ip.mode'', ''static'')],
            [(''mode'', [(JNull, ''ap.ip.mode'')]), (''ap.ip.mode'', [(JNull, ''ap.ip.mode'')])])"
  by (simp add: devtype_of_def scalar_entry_def Let_def is_digit_def
        dict_update_def deep_update_def coverage_update_def py_key_eq_def)

lemma query_guide_modes:
  "query_guide py_str db_modes [] []
     = Inr ([(''mode'', [(JNull, ''ap.ip.mode'')]),
             (''sta.ip.mode'', [(JNull, ''sta.ip.mode'')]),
             (''ap.ip.mode'', [(JNull, ''ap.ip.mode'')])],
            [[(''mode'', ''dhcp''), (''sta.ip.mode'', ''dhcp'')],
             [(''mode'', ''static''), (''ap.ip.mode'', ''static'')]])"
  by (simp add: db_modes_def flatten_mode_sta flatten_mode_ap dict_update_def del: flatten.simps)

text \<open>
  On the second registry: \<open>mode\<close> is a key of the guide and stays, \<open>sta.ip.mode\<close> is the
  only key that ends in \<open>.ip.mode\<close> once \<open>ap\<close> is left out, and \<open>zz\<close> ends no key.
\<close>

theorem column_resolution_witness:
  "resolve_columns [(''mode'', [(JNull, ''sta.ip.mode'')]), (''sta.ip.mode'', [(JNull, ''sta.ip.mode'')])]
     [''mode'', ''ip.mode'', ''zz''] = [''mode'', ''sta.ip.mode'', ''zz'']"
  using column_resolution [of "[(''mode'', [(JNull, ''sta.ip.mode'')]),
                                (''sta.ip.mode'', [(JNull, ''sta.ip.mode'')])]"
          "[''mode'', ''ip.mode'', ''zz'']"]
  by (simp add: candidates_def endswith_def)

text \<open>
  The claim fails when several keys end in the name. In the first registry the paths
  \<open>a.0\<close> and \<open>b.0\<close> are both keys of the guide and both end in the segment \<open>0\<close>, which
  is no key; the column \<open>0\<close> becomes \<open>b.0\<close>, and nothing tells of \<open>a.0\<close>. In the second
  the column \<open>ip.mode\<close> becomes \<open>ap.ip.mode\<close>, and \<open>sta.ip.mode\<close> is passed over.
\<close>

theorem column_resolution_counterexample:
  "query_guide py_str db_lists [] []
     = Inr ([(''a.0'', [(JNull, ''a.[n]'')]), (''b.0'', [(JNull, ''b.[n]'')])],
            [[(''a.0'', ''x'')], [(''b.0'', ''y'')]])
   \<and> map_of [(''a.0'', [(JNull, ''a.[n]'')]), (''b.0'', [(JNull, ''b.[n]'')])] ''0'' = None
   \<and> candidates [(''a.0'', [(JNull, ''a.[n]'')]), (''b.0'', [(JNull, ''b.[n]'')])] ''0''
       = [''a.0'', ''b.0'']
   \<and> resolve_columns [(''a.0'', [(JNull, ''a.[n]'')]), (''b.0'', [(JNull, ''b.[n]'')])] [''0'']
       = [''b.0'']
   \<and> query_guide py_str db_modes [] []
     = Inr ([(''mode'', [(JNull, ''ap.ip.mode'')]),
             (''sta.ip.mode'', [(JNull, ''sta.ip.mode'')]),
             (''ap.ip.mode'', [(JNull, ''ap.ip.mode'')])],
            [[(''mode'', ''dhcp''), (''sta.ip.mode'', ''dhcp'')],
             [(''mode'', ''static''), (''ap.ip.mode'', ''static'')]])
   \<and> resolve_columns [(''mode'', [(JNull, ''ap.ip.mode'')]),
                       (''sta.ip.mode'', [(JNull, ''sta.ip.mode'')]),
                       (''ap.ip.mode'', [(JNull, ''ap.ip.mode'')])] [''ip.mode'']
       = [''ap.ip.mode'']"
  by (simp add: query_guide_lists query_guide_modes resolve_columns_def candidates_def endswith_def)

section \<open>Tag edits, the registry and the next query\<close>





















text \<open>
  The claim fails for a tag with a comma: \<^verbatim>\<open>--set-tag B,C\<close> on a record tagged A leaves
  it with the three tags A, B and C, not with A and \<open>B,C\<close>.
\<close>

lemma write_tags_X:
  "write_tags [(''ID'', ''X''), (''Tags'', s)] db_X = Inr (db_X_tagged s)"
  by (simp add: write_tags_def db_X_def db_X_tagged_def)

lemma old_tags_X: "old_tags_of data_X = [''A'']"
  by (simp add: old_tags_of_def data_X_def)


lemma edit_tags_both:
  "edit_tags remdups data_X (Some ''B'') (Some ''C'') = [(''ID'', ''X''), (''Tags'', ''A'')]"
  by (simp add: edit_tags_def old_tags_X) (simp add: data_X_def)




text \<open>
  With both options the tag to set is lost: the second assignment starts again from
  \<^verbatim>\<open>old_tags\<close>.
\<close>

lemma update_tags_both:
  "update_tags remdups data_X db_X (Some ''B'') (Some ''C'') False =
     Inr ([(''ID'', ''X''), (''Tags'', ''A'')], db_X_tagged ''A'', True)"
  by (simp add: update_tags_def edit_tags_both write_tags_X)

end
